theory Spec2Isabelle
  imports Complex_Main "HOL-Library.Word"
begin

section \<open>Trinity socket server (posix): data model\<close>

text \<open>
  The embedding follows \<open>Network/Server/posix/TrinitySocketServer.cpp\<close>.
  Pointers are addresses; address \<open>0\<close> is the null pointer. Objects obtained from
  \<open>malloc\<close> live in two typed stores of one address space: the context objects and
  the byte buffers. An address that is in neither store is not allocated.
\<close>

type_synonym addr = nat
type_synonym byte = "8 word"
type_synonym u32 = "32 word"

definition NULL :: addr where
  "NULL = 0"

text \<open>
  \<open>PerSocketContextObject\<close> is declared in a header that is not part of the sources;
  the fields are the ones the functions use, with the widths their uses show
  (\<open>uint32_t\<close> lengths, \<open>char*\<close> buffers).
\<close>

record PerSocketContextObject =
  fd :: int
  RecvBuffer :: addr
  RecvBufferLen :: u32
  avg_RecvBufferLen :: u32
  Message :: addr
  ReceivedMessageBodyBytes :: u32
  RemainingBytesToSend :: u32
  WaitingHandshakeMessage :: bool

text \<open>
  The constants of \<open>Network/ProtocolConstants.h\<close> and \<open>TrinityConfig\<close> are not in the
  sources either and are parameters. A \<open>float\<close> constant is a real number.
\<close>

record config =
  RecvBufferSize :: u32
  Handshake :: bool
  AvgSlideWin_a :: real
  AvgSlideWin_b :: real
  AvgSlideWin_r :: real

text \<open>
  Modelled from the spec: \<open>UInt32_Contants::MessagePrefixLength\<close>, absent from the
  sources. The length prefix is read into a \<open>uint32_t\<close>, and the end-to-end scenario of
  the specification sends a 4-byte length.
\<close>

definition MessagePrefixLength :: u32 where
  "MessagePrefixLength = 4"

text \<open>Calls into the readiness monitor, which is an external collaborator, are logged.\<close>

datatype monitor_call = Enter addr | Rearm int

text \<open>
  What the model cannot continue from: undefined behaviour of the C++ program (a released
  block used, an access out of bounds, a \<open>free\<close> of no allocation, a cast of a
  floating-point value that the target type cannot hold), a read loop that is still
  running when the recorded events of the socket end, and the process being terminated
  by \<open>SIGPIPE\<close>.
\<close>

datatype fault =
  UseAfterFree | OutOfBounds | InvalidFree | CastOutOfRange | NoMoreEvents | KilledBySIGPIPE

record state =
  psco_map :: "int \<rightharpoonup> addr"
  contexts :: "addr \<rightharpoonup> PerSocketContextObject"
  blocks :: "addr \<rightharpoonup> byte list"
  fresh :: addr
  open_fds :: "int set"
  monitor_log :: "monitor_call list"
  outgoing :: "(int \<times> byte list) list"

section \<open>The allocator\<close>

text \<open>
  \<open>malloc\<close> hands out the next unused address and never reuses one; the content of a
  new buffer is indeterminate and is written as zeros. Allocation failure is not
  modelled. \<open>free\<close> of the null pointer does nothing; \<open>free\<close> of an address that is not
  allocated is undefined behaviour.
\<close>

definition malloc_bytes :: "nat \<Rightarrow> state \<Rightarrow> addr \<times> state" where
  "malloc_bytes n s =
     (fresh s, s\<lparr>blocks := (blocks s)(fresh s \<mapsto> replicate n 0), fresh := fresh s + 1\<rparr>)"

definition free_bytes :: "addr \<Rightarrow> state \<Rightarrow> fault + state" where
  "free_bytes p s =
     (if p = NULL then Inr s
      else case blocks s p of
             None \<Rightarrow> Inl InvalidFree
           | Some bs \<Rightarrow> Inr (s\<lparr>blocks := (blocks s)(p := None)\<rparr>))"

text \<open>
  \<open>realloc\<close> may extend the block where it is or move it; which of the two happens is
  the allocator's choice and is the argument \<open>moves\<close>. A moved block keeps its content
  and the old address is released.
\<close>

definition resize :: "nat \<Rightarrow> byte list \<Rightarrow> byte list" where
  "resize n bs = take n bs @ replicate (n - length bs) 0"

definition realloc_bytes :: "bool \<Rightarrow> addr \<Rightarrow> nat \<Rightarrow> state \<Rightarrow> fault + (addr \<times> state)" where
  "realloc_bytes moves p n s =
     (if p = NULL then Inr (malloc_bytes n s)
      else case blocks s p of
             None \<Rightarrow> Inl InvalidFree
           | Some bs \<Rightarrow>
               if moves
               then Inr (fresh s,
                         s\<lparr>blocks := ((blocks s)(p := None))(fresh s \<mapsto> resize n bs),
                           fresh := fresh s + 1\<rparr>)
               else Inr (p, s\<lparr>blocks := (blocks s)(p \<mapsto> resize n bs)\<rparr>))"

text \<open>Writing \<open>bs\<close> at offset \<open>off\<close> of a buffer; nothing is touched when \<open>bs\<close> is empty.\<close>

definition write_at :: "byte list \<Rightarrow> nat \<Rightarrow> byte list \<Rightarrow> fault + byte list" where
  "write_at mem off bs =
     (if bs = [] then Inr mem
      else if off + length bs \<le> length mem
      then Inr (take off mem @ bs @ drop (off + length bs) mem)
      else Inl OutOfBounds)"

definition store_bytes :: "addr \<Rightarrow> nat \<Rightarrow> byte list \<Rightarrow> state \<Rightarrow> fault + state" where
  "store_bytes p off bs s =
     (if bs = [] then Inr s
      else case blocks s p of
             None \<Rightarrow> Inl UseAfterFree
           | Some mem \<Rightarrow>
               (case write_at mem off bs of
                  Inl f \<Rightarrow> Inl f
                | Inr mem' \<Rightarrow> Inr (s\<lparr>blocks := (blocks s)(p \<mapsto> mem')\<rparr>)))"

section \<open>PerSocketContextObject management\<close>

text \<open>\<open>std::map::insert\<close> keeps an entry that is already there and says so in its result.\<close>

definition map_insert :: "int \<Rightarrow> addr \<Rightarrow> (int \<rightharpoonup> addr) \<Rightarrow> (int \<rightharpoonup> addr) \<times> bool" where
  "map_insert k v m = (case m k of None \<Rightarrow> (m(k \<mapsto> v), True) | Some w \<Rightarrow> (m, False))"

text \<open>\<open>std::map::operator[]\<close> inserts a value-initialised entry for a missing key.\<close>

definition map_index :: "int \<Rightarrow> (int \<rightharpoonup> addr) \<Rightarrow> addr \<times> (int \<rightharpoonup> addr)" where
  "map_index k m = (case m k of None \<Rightarrow> (NULL, m(k \<mapsto> NULL)) | Some v \<Rightarrow> (v, m))"

definition AddPerSocketContextObject :: "addr \<Rightarrow> state \<Rightarrow> fault + state" where
  "AddPerSocketContextObject pContext s =
     (case contexts s pContext of
        None \<Rightarrow> Inl UseAfterFree
      | Some c \<Rightarrow> Inr (s\<lparr>psco_map := fst (map_insert (fd c) pContext (psco_map s))\<rparr>))"

definition RemovePerSocketContextObject :: "int \<Rightarrow> state \<Rightarrow> state" where
  "RemovePerSocketContextObject k s = s\<lparr>psco_map := (psco_map s)(k := None)\<rparr>"

definition GetPerSocketContextObject :: "int \<Rightarrow> state \<Rightarrow> addr \<times> state" where
  "GetPerSocketContextObject k s =
     (let (pContext, m) = map_index k (psco_map s) in (pContext, s\<lparr>psco_map := m\<rparr>))"

definition new_context :: "config \<Rightarrow> int \<Rightarrow> addr \<Rightarrow> PerSocketContextObject" where
  "new_context cfg k buf =
     \<lparr>fd = k, RecvBuffer = buf, RecvBufferLen = RecvBufferSize cfg,
      avg_RecvBufferLen = RecvBufferSize cfg, Message = NULL,
      ReceivedMessageBodyBytes = 0, RemainingBytesToSend = 0,
      WaitingHandshakeMessage = Handshake cfg\<rparr>"

text \<open>
  The context and its buffer are two allocations. The fields that the source leaves
  uninitialised (\<open>Message\<close> and the two counters) are written as null and zero.
\<close>

definition AllocatePerSocketContextObject :: "config \<Rightarrow> int \<Rightarrow> state \<Rightarrow> addr \<times> state" where
  "AllocatePerSocketContextObject cfg k s =
     (let p = fresh s;
          s1 = s\<lparr>fresh := fresh s + 1\<rparr>;
          (buf, s2) = malloc_bytes (unat (RecvBufferSize cfg)) s1
      in (p, s2\<lparr>contexts := (contexts s2)(p \<mapsto> new_context cfg k buf)\<rparr>))"

definition FreePerSocketContextObject :: "addr \<Rightarrow> state \<Rightarrow> fault + state" where
  "FreePerSocketContextObject p s =
     (case contexts s p of
        None \<Rightarrow> Inl UseAfterFree
      | Some c \<Rightarrow>
          (case free_bytes (RecvBuffer c) s of
             Inl f \<Rightarrow> Inl f
           | Inr s1 \<Rightarrow> Inr (s1\<lparr>contexts := (contexts s1)(p := None)\<rparr>)))"

text \<open>
  The two floating-point expressions of \<open>ResetContextObjects\<close>. The operands are
  converted to \<open>float\<close>; the rounding of the conversions and of the operations is not
  modelled, the products, the sum and the quotient are exact. The cast to \<open>uint32_t\<close>
  drops the fraction and is undefined when the result does not fit. A ratio of zero is
  outside the model.
\<close>

definition cast_uint32 :: "real \<Rightarrow> fault + u32" where
  "cast_uint32 x =
     (if - 1 < x \<and> x < 2 ^ 32
      then Inr (word_of_int (if 0 \<le> x then \<lfloor>x\<rfloor> else 0))
      else Inl CastOutOfRange)"

definition slide_avg :: "config \<Rightarrow> u32 \<Rightarrow> u32 \<Rightarrow> fault + u32" where
  "slide_avg cfg avg n =
     cast_uint32 (of_nat (unat avg) * AvgSlideWin_a cfg + of_nat (unat n) * AvgSlideWin_b cfg)"

definition below_ratio :: "config \<Rightarrow> u32 \<Rightarrow> u32 \<Rightarrow> bool" where
  "below_ratio cfg avg len = (of_nat (unat avg) < of_nat (unat len) / AvgSlideWin_r cfg)"

text \<open>
  \<open>ResetContextObjects\<close>: the message buffer is released, the average is recomputed and
  capped from below, and the receive buffer is replaced when the average is under the
  threshold.
\<close>

definition ResetContextObjects :: "config \<Rightarrow> addr \<Rightarrow> state \<Rightarrow> fault + state" where
  "ResetContextObjects cfg pContext s =
     (case contexts s pContext of
        None \<Rightarrow> Inl UseAfterFree
      | Some c \<Rightarrow>
          (case free_bytes (Message c) s of
             Inl f \<Rightarrow> Inl f
           | Inr s1 \<Rightarrow>
               (case slide_avg cfg (avg_RecvBufferLen c) (ReceivedMessageBodyBytes c) of
                  Inl f \<Rightarrow> Inl f
                | Inr v \<Rightarrow>
                    let c1 = c\<lparr>avg_RecvBufferLen := v\<rparr>;
                        c2 = c1\<lparr>avg_RecvBufferLen :=
                                  max (avg_RecvBufferLen c1) (RecvBufferSize cfg)\<rparr>
                    in if below_ratio cfg (avg_RecvBufferLen c2) (RecvBufferLen c2)
                       then (case free_bytes (RecvBuffer c2) s1 of
                               Inl f \<Rightarrow> Inl f
                             | Inr s2 \<Rightarrow>
                                 let c3 = c2\<lparr>RecvBufferLen := avg_RecvBufferLen c2\<rparr>;
                                     (buf, s3) = malloc_bytes (unat (RecvBufferLen c3)) s2
                                 in Inr (s3\<lparr>contexts :=
                                             (contexts s3)(pContext \<mapsto>
                                                c3\<lparr>RecvBuffer := buf\<rparr>)\<rparr>))
                       else Inr (s1\<lparr>contexts := (contexts s1)(pContext \<mapsto> c2)\<rparr>))))"

text \<open>The length fields after \<open>ResetContextObjects\<close>, without the allocator.\<close>

definition reset_fields ::
  "config \<Rightarrow> PerSocketContextObject \<Rightarrow> fault + PerSocketContextObject" where
  "reset_fields cfg c =
     (case slide_avg cfg (avg_RecvBufferLen c) (ReceivedMessageBodyBytes c) of
        Inl f \<Rightarrow> Inl f
      | Inr v \<Rightarrow>
          let c1 = c\<lparr>avg_RecvBufferLen := v\<rparr>;
              c2 = c1\<lparr>avg_RecvBufferLen := max (avg_RecvBufferLen c1) (RecvBufferSize cfg)\<rparr>
          in if below_ratio cfg (avg_RecvBufferLen c2) (RecvBufferLen c2)
             then Inr (c2\<lparr>RecvBufferLen := avg_RecvBufferLen c2\<rparr>)
             else Inr c2)"

text \<open>
  When \<open>ResetContextObjects\<close> is defined on a context: the message buffer is null or an
  allocation, the cast is in range, and the receive buffer, if it is to be replaced, is
  null or an allocation other than the one just released.
\<close>

definition reset_defined :: "config \<Rightarrow> PerSocketContextObject \<Rightarrow> state \<Rightarrow> bool" where
  "reset_defined cfg c s =
     ((Message c = NULL \<or> blocks s (Message c) \<noteq> None)
      \<and> (case slide_avg cfg (avg_RecvBufferLen c) (ReceivedMessageBodyBytes c) of
            Inl f \<Rightarrow> False
          | Inr v \<Rightarrow>
              if below_ratio cfg (max v (RecvBufferSize cfg)) (RecvBufferLen c)
              then RecvBuffer c = NULL
                   \<or> (RecvBuffer c \<noteq> Message c \<and> blocks s (RecvBuffer c) \<noteq> None)
              else True))"

section \<open>Closing a connection\<close>

definition CloseClientConnection :: "addr \<Rightarrow> bool \<Rightarrow> state \<Rightarrow> fault + state" where
  "CloseClientConnection pContext lingering s =
     (case contexts s pContext of
        None \<Rightarrow> Inl UseAfterFree
      | Some c \<Rightarrow>
          let s1 = RemovePerSocketContextObject (fd c) s;
              s2 = s1\<lparr>open_fds := open_fds s1 - {fd c}\<rparr>
          in FreePerSocketContextObject pContext s2)"

section \<open>Reading from a non-blocking socket\<close>

text \<open>
  The socket is the byte stream still to arrive (\<open>incoming\<close>) and one recorded event
  for each call of \<open>read\<close>: \<open>Ready k\<close> when up to \<open>k\<close> bytes are in the kernel's queue,
  \<open>WouldBlock\<close> for a failure with \<open>EAGAIN\<close>, \<open>HardError\<close> for a failure with any other
  \<open>errno\<close>, \<open>PeerClosed\<close> for end of stream. A \<open>Ready\<close> event that has nothing to
  deliver is a failure with \<open>EAGAIN\<close>.
\<close>

datatype event = Ready nat | WouldBlock | HardError | PeerClosed

datatype read_result = Got "byte list" | Zero | Eagain | Failed

fun bytes_read :: "read_result \<Rightarrow> int" where
  "bytes_read (Got bs) = int (length bs)"
| "bytes_read Zero = 0"
| "bytes_read Eagain = - 1"
| "bytes_read Failed = - 1"

fun payload :: "read_result \<Rightarrow> byte list" where
  "payload (Got bs) = bs"
| "payload Zero = []"
| "payload Eagain = []"
| "payload Failed = []"

fun errno_is_EAGAIN :: "read_result \<Rightarrow> bool" where
  "errno_is_EAGAIN Eagain = True"
| "errno_is_EAGAIN (Got bs) = False"
| "errno_is_EAGAIN Zero = False"
| "errno_is_EAGAIN Failed = False"

fun sys_read :: "event \<Rightarrow> byte list \<Rightarrow> nat \<Rightarrow> read_result \<times> byte list" where
  "sys_read (Ready k) incoming n =
     (let m = min (min k n) (length incoming)
      in if m = 0 then (Eagain, incoming) else (Got (take m incoming), drop m incoming))"
| "sys_read WouldBlock incoming n = (Eagain, incoming)"
| "sys_read HardError incoming n = (Failed, incoming)"
| "sys_read PeerClosed incoming n = (Zero, incoming)"

text \<open>The length prefix is a \<open>uint32_t\<close> in host byte order, little-endian here.\<close>

definition le32 :: "byte list \<Rightarrow> u32" where
  "le32 bs = foldr (\<lambda>b w. ucast b + 256 * w) bs 0"

definition bytes_le32 :: "u32 \<Rightarrow> byte list" where
  "bytes_le32 w = map (\<lambda>i. ucast (drop_bit (8 * i) w)) [0, 1, 2, 3]"

section \<open>The receive pipeline\<close>

text \<open>
  The first loop of \<open>ProcessRecv\<close> reads into the local \<open>body_length\<close>, here the four
  bytes \<open>cell\<close>. \<open>p\<close> and \<open>bytes_left\<close> are \<open>uint32_t\<close>: adding the \<open>ssize_t\<close> result
  wraps around. The loop has no test of the result.
\<close>

fun prefix_loop ::
  "event list \<Rightarrow> byte list \<Rightarrow> byte list \<Rightarrow> u32 \<Rightarrow> u32 \<Rightarrow>
     fault + (byte list \<times> byte list \<times> event list)" where
  "prefix_loop [] incoming cell p bytes_left =
     (if 0 < bytes_left then Inl NoMoreEvents else Inr (cell, incoming, []))"
| "prefix_loop (e # es) incoming cell p bytes_left =
     (if 0 < bytes_left
      then (case sys_read e incoming (unat bytes_left) of
              (r, incoming') \<Rightarrow>
                (case write_at cell (unat p) (payload r) of
                   Inl f \<Rightarrow> Inl f
                 | Inr cell' \<Rightarrow>
                     prefix_loop es incoming' cell'
                       (p + word_of_int (bytes_read r))
                       (bytes_left - word_of_int (bytes_read r))))
      else Inr (cell, incoming, e # es))"

text \<open>The sizing step: \<open>realloc\<close> when the body is longer than the buffer.\<close>

definition ensure_capacity :: "bool \<Rightarrow> addr \<Rightarrow> u32 \<Rightarrow> state \<Rightarrow> fault + state" where
  "ensure_capacity moves pContext body_length s =
     (case contexts s pContext of
        None \<Rightarrow> Inl UseAfterFree
      | Some c \<Rightarrow>
          if RecvBufferLen c < body_length
          then (case realloc_bytes moves (RecvBuffer c) (unat body_length) s of
                  Inl f \<Rightarrow> Inl f
                | Inr (q, s1) \<Rightarrow>
                    Inr (s1\<lparr>contexts :=
                             (contexts s1)(pContext \<mapsto>
                                c\<lparr>RecvBuffer := q, RecvBufferLen := body_length\<rparr>)\<rparr>))
          else Inr s)"

text \<open>
  The second loop reads the body to \<open>buf + p\<close>. A result of \<open>0\<close>, or of \<open>-1\<close> with an
  \<open>errno\<close> other than \<open>EAGAIN\<close>, closes the connection and leaves with \<open>false\<close>; every
  other result, \<open>-1\<close> with \<open>EAGAIN\<close> included, goes on to the two updates.
\<close>

fun body_loop ::
  "addr \<Rightarrow> addr \<Rightarrow> event list \<Rightarrow> byte list \<Rightarrow> u32 \<Rightarrow> u32 \<Rightarrow> state \<Rightarrow>
     fault + (bool \<times> byte list \<times> event list \<times> state)" where
  "body_loop pContext buf [] incoming p bytes_left s =
     (if 0 < bytes_left then Inl NoMoreEvents else Inr (True, incoming, [], s))"
| "body_loop pContext buf (e # es) incoming p bytes_left s =
     (if 0 < bytes_left
      then (case sys_read e incoming (unat bytes_left) of
              (r, incoming') \<Rightarrow>
                (case store_bytes buf (unat p) (payload r) s of
                   Inl f \<Rightarrow> Inl f
                 | Inr s1 \<Rightarrow>
                     if bytes_read r = 0 \<or> (bytes_read r = - 1 \<and> \<not> errno_is_EAGAIN r)
                     then (case CloseClientConnection pContext False s1 of
                             Inl f \<Rightarrow> Inl f
                           | Inr s2 \<Rightarrow> Inr (False, incoming', es, s2))
                     else body_loop pContext buf es incoming'
                            (p + word_of_int (bytes_read r))
                            (bytes_left - word_of_int (bytes_read r)) s1))
      else Inr (True, incoming, e # es, s))"

definition ProcessRecv ::
  "bool \<Rightarrow> addr \<Rightarrow> byte list \<Rightarrow> event list \<Rightarrow> state \<Rightarrow>
     fault + (bool \<times> byte list \<times> event list \<times> state)" where
  "ProcessRecv moves pContext incoming evs s =
     (case contexts s pContext of
        None \<Rightarrow> Inl UseAfterFree
      | Some c \<Rightarrow>
          (case prefix_loop evs incoming (replicate 4 0) 0 MessagePrefixLength of
             Inl f \<Rightarrow> Inl f
           | Inr (cell, incoming1, evs1) \<Rightarrow>
               let body_length = le32 cell;
                   buf = RecvBuffer c
               in (case ensure_capacity moves pContext body_length s of
                     Inl f \<Rightarrow> Inl f
                   | Inr s1 \<Rightarrow>
                       (case body_loop pContext buf evs1 incoming1 0 body_length s1 of
                          Inl f \<Rightarrow> Inl f
                        | Inr (False, incoming2, evs2, s2) \<Rightarrow> Inr (False, incoming2, evs2, s2)
                        | Inr (True, incoming2, evs2, s2) \<Rightarrow>
                            (case contexts s2 pContext of
                               None \<Rightarrow> Inl UseAfterFree
                             | Some c2 \<Rightarrow>
                                 Inr (True, incoming2, evs2,
                                      s2\<lparr>contexts :=
                                           (contexts s2)(pContext \<mapsto>
                                              c2\<lparr>Message := buf,
                                                 ReceivedMessageBodyBytes := body_length\<rparr>)\<rparr>))))))"

text \<open>The bytes that \<open>Message\<close> and \<open>ReceivedMessageBodyBytes\<close> describe.\<close>

definition pending_message :: "addr \<Rightarrow> state \<Rightarrow> byte list option" where
  "pending_message pContext s =
     (case contexts s pContext of
        None \<Rightarrow> None
      | Some c \<Rightarrow>
          (case blocks s (Message c) of
             None \<Rightarrow> None
           | Some mem \<Rightarrow>
               if unat (ReceivedMessageBodyBytes c) \<le> length mem
               then Some (take (unat (ReceivedMessageBodyBytes c)) mem)
               else None))"

text \<open>
  For stating what the loops do: the buffer \<open>mem\<close> with \<open>bs\<close> written at offset \<open>off\<close>,
  and the events on which \<open>read\<close> returns at least one byte.
\<close>

definition patch :: "byte list \<Rightarrow> nat \<Rightarrow> byte list \<Rightarrow> byte list" where
  "patch mem off bs = take off mem @ bs @ drop (off + length bs) mem"

fun delivers :: "event \<Rightarrow> bool" where
  "delivers (Ready k) = (0 < k)"
| "delivers WouldBlock = False"
| "delivers HardError = False"
| "delivers PeerClosed = False"

section \<open>The send pipeline\<close>

text \<open>
  What \<open>write\<close> on the socket does: \<open>Accepts k\<close> when the kernel takes up to \<open>k\<close> bytes
  (\<open>k\<close> at least 1), \<open>WriteFails\<close> for a result of \<open>-1\<close>, and \<open>Sigpipe\<close> when the peer has
  closed and the signal, for which the source installs no handler, ends the process.
  The bytes taken are read from the buffer and recorded in \<open>outgoing\<close>.
\<close>

datatype write_event = Accepts nat | WriteFails | Sigpipe

definition load_bytes :: "addr \<Rightarrow> nat \<Rightarrow> state \<Rightarrow> fault + byte list" where
  "load_bytes p n s =
     (if n = 0 then Inr []
      else case blocks s p of
             None \<Rightarrow> Inl UseAfterFree
           | Some mem \<Rightarrow> if n \<le> length mem then Inr (take n mem) else Inl OutOfBounds)"

fun sys_write :: "write_event \<Rightarrow> int \<Rightarrow> addr \<Rightarrow> nat \<Rightarrow> state \<Rightarrow> fault + (int \<times> state)" where
  "sys_write (Accepts k) d p n s =
     (case load_bytes p (min k n) s of
        Inl f \<Rightarrow> Inl f
      | Inr bs \<Rightarrow> Inr (int (min k n), s\<lparr>outgoing := outgoing s @ [(d, bs)]\<rparr>))"
| "sys_write WriteFails d p n s = Inr (- 1, s)"
| "sys_write Sigpipe d p n s = Inl KilledBySIGPIPE"

text \<open>\<open>SendResponse\<close>: re-arm, one \<open>write\<close> whose result is dropped, reset.\<close>

definition SendResponse :: "config \<Rightarrow> addr \<Rightarrow> write_event \<Rightarrow> state \<Rightarrow> fault + state" where
  "SendResponse cfg pContext w s =
     (case contexts s pContext of
        None \<Rightarrow> Inl UseAfterFree
      | Some c \<Rightarrow>
          let s1 = s\<lparr>monitor_log := monitor_log s @ [Rearm (fd c)]\<rparr>
          in (case sys_write w (fd c) (Message c) (unat (RemainingBytesToSend c)) s1 of
                Inl f \<Rightarrow> Inl f
              | Inr (wr, s2) \<Rightarrow> ResetContextObjects cfg pContext s2))"

section \<open>Server lifecycle\<close>

text \<open>
  The globals of the server and the operating-system resources that \<open>StartSocketServer\<close>
  acquires: open descriptors, the list that \<open>getaddrinfo\<close> allocates, the readiness
  monitor and the accept thread.
\<close>

record lifecycle =
  accept_sock :: int
  g_threadpool_size :: nat
  descriptors :: "int set"
  addrinfos_live :: bool
  monitor_up :: bool
  accept_thread_running :: bool

text \<open>
  What the system calls answer: the code \<open>getaddrinfo\<close> returns, for each address of
  its list what \<open>socket\<close> and \<open>bind\<close> do, and the results of \<open>listen\<close> and of
  \<open>InitializeEventMonitor\<close>.
\<close>

datatype candidate = SocketFails | BindFails int | BindSucceeds int

record start_env =
  getaddrinfo_ret :: int
  candidates :: "candidate list"
  listen_ret :: int
  monitor_ret :: int

text \<open>The \<open>for\<close> loop over the address list; \<open>False\<close> when it ends with \<open>addrinfop == NULL\<close>.\<close>

fun bind_loop :: "candidate list \<Rightarrow> lifecycle \<Rightarrow> bool \<times> lifecycle" where
  "bind_loop [] g = (False, g)"
| "bind_loop (SocketFails # cs) g = bind_loop cs (g\<lparr>accept_sock := - 1\<rparr>)"
| "bind_loop (BindFails k # cs) g =
     bind_loop cs (g\<lparr>accept_sock := k, descriptors := insert k (descriptors g) - {k}\<rparr>)"
| "bind_loop (BindSucceeds k # cs) g =
     (True, g\<lparr>accept_sock := k, descriptors := insert k (descriptors g)\<rparr>)"

definition StartSocketServer :: "start_env \<Rightarrow> 16 word \<Rightarrow> lifecycle \<Rightarrow> int \<times> lifecycle" where
  "StartSocketServer env port g =
     (let g0 = g\<lparr>g_threadpool_size := 0, accept_sock := - 1\<rparr>
      in if getaddrinfo_ret env \<noteq> 0 then (- 1, g0)
         else
           let g1 = g0\<lparr>addrinfos_live := True\<rparr>;
               (bound, g2) = bind_loop (candidates env) g1
           in if \<not> bound then (- 1, g2)
              else
                let g3 = g2\<lparr>addrinfos_live := False\<rparr>
                in if listen_ret env = - 1 then (- 1, g3)
                   else if monitor_ret env = - 1
                   then (- 1, g3\<lparr>descriptors := descriptors g3 - {accept_sock g3}\<rparr>)
                   else (accept_sock g3,
                         g3\<lparr>monitor_up := True, accept_thread_running := True\<rparr>))"

section \<open>A connection over time\<close>

text \<open>
  The operations on one context after its allocation. \<open>Receive\<close> is \<open>ProcessRecv\<close> on
  the bytes and events given, \<open>Respond\<close> is \<open>SendResponse\<close> with what its \<open>write\<close>
  does. \<open>Dispatch\<close> stands for an application message handler, which is not in the
  sources: one that leaves a response of \<open>n\<close> bytes in a buffer of its own and points
  \<open>Message\<close> to it. A sequence without \<open>Dispatch\<close> is the source alone.
\<close>

datatype operation =
  Receive bool "byte list" "event list" | Dispatch nat | Respond write_event

definition dispatch :: "addr \<Rightarrow> nat \<Rightarrow> state \<Rightarrow> fault + state" where
  "dispatch pContext n s =
     (case contexts s pContext of
        None \<Rightarrow> Inl UseAfterFree
      | Some c \<Rightarrow>
          (case malloc_bytes n s of
             (q, s1) \<Rightarrow>
               Inr (s1\<lparr>contexts :=
                        (contexts s1)(pContext \<mapsto>
                           c\<lparr>Message := q, RemainingBytesToSend := word_of_nat n\<rparr>)\<rparr>)))"

fun apply_operation :: "config \<Rightarrow> addr \<Rightarrow> operation \<Rightarrow> state \<Rightarrow> fault + state" where
  "apply_operation cfg pContext (Receive moves incoming evs) s =
     (case ProcessRecv moves pContext incoming evs s of
        Inl f \<Rightarrow> Inl f
      | Inr (ok, incoming', evs', s') \<Rightarrow> Inr s')"
| "apply_operation cfg pContext (Dispatch n) s = dispatch pContext n s"
| "apply_operation cfg pContext (Respond w) s = SendResponse cfg pContext w s"

fun run :: "config \<Rightarrow> addr \<Rightarrow> operation list \<Rightarrow> state \<Rightarrow> fault + state" where
  "run cfg pContext [] s = Inr s"
| "run cfg pContext (x # xs) s =
     (case apply_operation cfg pContext x s of
        Inl f \<Rightarrow> Inl f
      | Inr s' \<Rightarrow> run cfg pContext xs s')"

text \<open>
  The lengths of a context over one message of \<open>n\<close> bytes that is received whole and
  answered: the sizing step of \<open>ProcessRecv\<close>, the length it records, and the reset.
\<close>

definition message_round ::
  "config \<Rightarrow> PerSocketContextObject \<Rightarrow> u32 \<Rightarrow> fault + PerSocketContextObject" where
  "message_round cfg c n =
     reset_fields cfg
       ((if RecvBufferLen c < n then c\<lparr>RecvBufferLen := n\<rparr> else c)
          \<lparr>ReceivedMessageBodyBytes := n\<rparr>)"

fun rounds ::
  "config \<Rightarrow> PerSocketContextObject \<Rightarrow> u32 list \<Rightarrow> fault + PerSocketContextObject" where
  "rounds cfg c [] = Inr c"
| "rounds cfg c (n # ns) =
     (case message_round cfg c n of
        Inl f \<Rightarrow> Inl f
      | Inr c' \<Rightarrow> rounds cfg c' ns)"

section \<open>Concrete configurations and states\<close>

text \<open>
  A configuration with the given default size, weights and ratio; and the one with both
  weights one half and a ratio of two (the source's comment: ``drops below half of
  current recv buf len'').
\<close>

definition window :: "u32 \<Rightarrow> real \<Rightarrow> real \<Rightarrow> real \<Rightarrow> config" where
  "window n a b r =
     \<lparr>RecvBufferSize = n, Handshake = False,
      AvgSlideWin_a = a, AvgSlideWin_b = b, AvgSlideWin_r = r\<rparr>"

definition half_window :: "u32 \<Rightarrow> config" where
  "half_window n = window n (1 / 2) (1 / 2) 2"

definition empty_state :: state where
  "empty_state =
     \<lparr>psco_map = Map.empty, contexts = Map.empty, blocks = Map.empty, fresh = 100,
      open_fds = {}, monitor_log = [], outgoing = []\<rparr>"

text \<open>
  One accepted connection on descriptor 7, as the accept loop makes it:
  \<open>AllocatePerSocketContextObject\<close>, \<open>AddPerSocketContextObject\<close>, \<open>EnterEventMonitor\<close>.
\<close>

definition connected :: "config \<Rightarrow> addr \<times> state" where
  "connected cfg =
     (case AllocatePerSocketContextObject cfg 7 (empty_state\<lparr>open_fds := {7}\<rparr>) of
        (p, s) \<Rightarrow>
          (case AddPerSocketContextObject p s of
             Inl f \<Rightarrow> (p, s)
           | Inr s' \<Rightarrow> (p, s' \<lparr>monitor_log := monitor_log s' @ [Enter p]\<rparr>)))"

text \<open>
  A session on that connection: a message of 17 bytes, extended in place, and its
  response; then an empty message and its response, whose \<open>write\<close> fails.
\<close>

definition session :: "operation list" where
  "session =
     [Receive False (bytes_le32 17 @ [1, 2, 3, 4, 5, 6, 7, 8, 9, 10, 11, 12, 13, 14, 15, 16, 17])
        [Ready 4, Ready 17],
      Dispatch 2, Respond (Accepts 2),
      Receive False (bytes_le32 0) [Ready 4],
      Dispatch 2, Respond WriteFails]"

text \<open>The state of that connection after the first \<open>n\<close> operations of the session.\<close>

definition after_ops :: "nat \<Rightarrow> fault + state" where
  "after_ops n = run (half_window 8) 100 (take n session) (snd (connected (half_window 8)))"



text \<open>The same descriptor accepted a second time: a second context, not yet registered.\<close>

definition accepted_twice :: "config \<Rightarrow> addr \<times> state" where
  "accepted_twice cfg = AllocatePerSocketContextObject cfg 7 (snd (connected cfg))"

definition stopped :: lifecycle where
  "stopped =
     \<lparr>accept_sock = - 1, g_threadpool_size = 0, descriptors = {}, addrinfos_live = False,
      monitor_up = False, accept_thread_running = False\<rparr>"

text \<open>The receive buffer of a context that is still allocated has at least the default size.\<close>

definition capacity_ok :: "config \<Rightarrow> addr \<Rightarrow> state \<Rightarrow> bool" where
  "capacity_ok cfg pContext s =
     (case contexts s pContext of
        None \<Rightarrow> True
      | Some c \<Rightarrow> RecvBufferSize cfg \<le> RecvBufferLen c)"

section \<open>Evaluating the concrete states\<close>

lemmas state_defs = connected_def accepted_twice_def AllocatePerSocketContextObject_def
  new_context_def malloc_bytes_def empty_state_def half_window_def window_def
  AddPerSocketContextObject_def map_insert_def Let_def NULL_def

lemmas recv_defs = ProcessRecv_def MessagePrefixLength_def write_at_def store_bytes_def
  ensure_capacity_def realloc_bytes_def resize_def le32_def bytes_le32_def
  pending_message_def CloseClientConnection_def FreePerSocketContextObject_def
  RemovePerSocketContextObject_def free_bytes_def


lemma half_window_simps:
  "RecvBufferSize (half_window n) = n"
  "Handshake (half_window n) = False"
  "AvgSlideWin_a (half_window n) = 1 / 2"
  "AvgSlideWin_b (half_window n) = 1 / 2"
  "AvgSlideWin_r (half_window n) = 2"
  by (simp_all add: half_window_def window_def)

lemmas arith_defs = slide_avg_def below_ratio_def cast_uint32_def

lemma connected_8:
  "connected (half_window 8) =
     (100, \<lparr>psco_map = [7 \<mapsto> 100],
            contexts = [100 \<mapsto> \<lparr>fd = 7, RecvBuffer = 101, RecvBufferLen = 8,
                                 avg_RecvBufferLen = 8, Message = 0,
                                 ReceivedMessageBodyBytes = 0, RemainingBytesToSend = 0,
                                 WaitingHandshakeMessage = False\<rparr>],
            blocks = [101 \<mapsto> replicate 8 0], fresh = 102, open_fds = {7},
            monitor_log = [Enter 100], outgoing = []\<rparr>)"
  by (simp add: state_defs)

lemma accepted_twice_8:
  "accepted_twice (half_window 8) =
     (102, \<lparr>psco_map = [7 \<mapsto> 100],
            contexts = [100 \<mapsto> \<lparr>fd = 7, RecvBuffer = 101, RecvBufferLen = 8,
                                 avg_RecvBufferLen = 8, Message = 0,
                                 ReceivedMessageBodyBytes = 0, RemainingBytesToSend = 0,
                                 WaitingHandshakeMessage = False\<rparr>,
                        102 \<mapsto> \<lparr>fd = 7, RecvBuffer = 103, RecvBufferLen = 8,
                                 avg_RecvBufferLen = 8, Message = 0,
                                 ReceivedMessageBodyBytes = 0, RemainingBytesToSend = 0,
                                 WaitingHandshakeMessage = False\<rparr>],
            blocks = [101 \<mapsto> replicate 8 0, 103 \<mapsto> replicate 8 0], fresh = 104,
            open_fds = {7}, monitor_log = [Enter 100], outgoing = []\<rparr>)"
  by (simp add: accepted_twice_def connected_8)
     (simp add: AllocatePerSocketContextObject_def new_context_def malloc_bytes_def
        half_window_simps Let_def NULL_def)

section \<open>The registry\<close>

text \<open>
  C10. A lookup of a descriptor that is not in the registry goes through
  \<open>operator[]\<close>: it returns the null pointer, and the registry afterwards holds a null
  entry for that descriptor, so the registry is not what it was.
\<close>

theorem lookup_unknown_inserts_null:
  assumes "psco_map s k = None"
  shows "GetPerSocketContextObject k s = (NULL, s\<lparr>psco_map := (psco_map s)(k \<mapsto> NULL)\<rparr>)
         \<and> psco_map (snd (GetPerSocketContextObject k s)) k = Some NULL
         \<and> snd (GetPerSocketContextObject k s) \<noteq> s"
proof -
  have eq: "GetPerSocketContextObject k s = (NULL, s\<lparr>psco_map := (psco_map s)(k \<mapsto> NULL)\<rparr>)"
    using assms by (simp add: GetPerSocketContextObject_def map_index_def)
  have "psco_map (s\<lparr>psco_map := (psco_map s)(k \<mapsto> NULL)\<rparr>) k \<noteq> psco_map s k"
    using assms by simp
  then have "s\<lparr>psco_map := (psco_map s)(k \<mapsto> NULL)\<rparr> \<noteq> s"
    by metis
  with eq show ?thesis by simp
qed

text \<open>Descriptor 9 is unknown to the registry of the one-connection state.\<close>

theorem lookup_unknown_inserts_null_witness:
  "psco_map (snd (connected (half_window 8))) 9 = None
   \<and> fst (GetPerSocketContextObject 9 (snd (connected (half_window 8)))) = NULL
   \<and> psco_map (snd (GetPerSocketContextObject 9 (snd (connected (half_window 8))))) 9 = Some NULL
   \<and> snd (GetPerSocketContextObject 9 (snd (connected (half_window 8))))
       \<noteq> snd (connected (half_window 8))"
proof -
  have h: "psco_map (snd (connected (half_window 8))) 9 = None"
    by (simp add: connected_8)
  show ?thesis
    using h lookup_unknown_inserts_null [OF h] by (metis fst_conv)
qed

text \<open>
  C8, as the specification states it: inserting a descriptor that is already registered
  fails with \<open>DuplicateDescriptor\<close>. The source calls \<open>std::map::insert\<close> and drops its
  result; \<open>AddPerSocketContextObject\<close> returns nothing. With descriptor 7 registered for
  the context at 100, adding the second context at 102 for the same descriptor returns
  normally, and the registry still maps 7 to the first context.
\<close>

theorem insert_duplicate_counterexample:
  "AddPerSocketContextObject 102 (snd (accepted_twice (half_window 8)))
     = Inr (snd (accepted_twice (half_window 8)))
   \<and> psco_map (snd (accepted_twice (half_window 8))) 7 = Some 100"
  by (simp add: accepted_twice_8 AddPerSocketContextObject_def map_insert_def)

text \<open>
  C8, amended: for every registry in which the descriptor of the context is already
  present, \<open>AddPerSocketContextObject\<close> reports nothing and leaves the whole state, the
  registry included, as it was; the present entry is kept.
\<close>

theorem insert_duplicate_keeps_registry:
  assumes "contexts s pContext = Some c" and "psco_map s (fd c) = Some q"
  shows "AddPerSocketContextObject pContext s = Inr s"
  using assms by (simp add: AddPerSocketContextObject_def map_insert_def)

theorem insert_duplicate_keeps_registry_witness:
  "contexts (snd (accepted_twice (half_window 8))) 102 =
     Some \<lparr>fd = 7, RecvBuffer = 103, RecvBufferLen = 8, avg_RecvBufferLen = 8, Message = 0,
           ReceivedMessageBodyBytes = 0, RemainingBytesToSend = 0,
           WaitingHandshakeMessage = False\<rparr>
   \<and> psco_map (snd (accepted_twice (half_window 8))) 7 = Some 100
   \<and> AddPerSocketContextObject 102 (snd (accepted_twice (half_window 8)))
       = Inr (snd (accepted_twice (half_window 8)))"
proof -
  let ?s = "snd (accepted_twice (half_window 8))"
  let ?c = "\<lparr>fd = 7, RecvBuffer = 103, RecvBufferLen = 8, avg_RecvBufferLen = 8, Message = 0,
             ReceivedMessageBodyBytes = 0, RemainingBytesToSend = 0,
             WaitingHandshakeMessage = False\<rparr>"
  have c: "contexts ?s 102 = Some ?c" by (simp add: accepted_twice_8)
  have m: "psco_map ?s (fd ?c) = Some 100" by (simp add: accepted_twice_8)
  have m': "psco_map ?s 7 = Some 100" by (simp add: accepted_twice_8)
  from insert_duplicate_keeps_registry [OF c m] c m' show ?thesis by simp
qed

section \<open>Starting the server\<close>

lemma bind_loop_bound:
  "BindSucceeds k \<in> set cs \<Longrightarrow>
   fst (bind_loop cs g)
   \<and> accept_sock (snd (bind_loop cs g)) \<in> descriptors (snd (bind_loop cs g))"
  by (induction cs g rule: bind_loop.induct) auto

text \<open>
  C9. The claim holds on the path where \<open>InitializeEventMonitor\<close> fails, which closes
  \<open>accept_sock\<close>. On the path where \<open>listen\<close> fails the source returns \<open>-1\<close> at once:
  whenever an address was bound and \<open>listen\<close> fails, the listening socket is still
  among the open descriptors when \<open>StartSocketServer\<close> returns.
\<close>

theorem listen_failure_keeps_socket_open:
  assumes "getaddrinfo_ret env = 0" and "BindSucceeds k \<in> set (candidates env)"
    and "listen_ret env = - 1"
  shows "fst (StartSocketServer env port g) = - 1
         \<and> accept_sock (snd (StartSocketServer env port g))
             \<in> descriptors (snd (StartSocketServer env port g))"
proof -
  let ?g1 = "g\<lparr>g_threadpool_size := 0, accept_sock := - 1, addrinfos_live := True\<rparr>"
  obtain b g2 where bl: "bind_loop (candidates env) ?g1 = (b, g2)"
    by (cases "bind_loop (candidates env) ?g1")
  from bind_loop_bound [OF assms(2), of ?g1] bl
  have "b" and "accept_sock g2 \<in> descriptors g2" by simp_all
  with assms(1,3) bl show ?thesis
    by (simp add: StartSocketServer_def Let_def)
qed

theorem listen_failure_keeps_socket_open_witness:
  "fst (StartSocketServer \<lparr>getaddrinfo_ret = 0, candidates = [BindSucceeds 3],
                           listen_ret = - 1, monitor_ret = 0\<rparr> 5304 stopped) = - 1
   \<and> 3 \<in> descriptors (snd (StartSocketServer \<lparr>getaddrinfo_ret = 0,
                           candidates = [BindSucceeds 3], listen_ret = - 1,
                           monitor_ret = 0\<rparr> 5304 stopped))"
  using listen_failure_keeps_socket_open
    [of "\<lparr>getaddrinfo_ret = 0, candidates = [BindSucceeds 3], listen_ret = - 1,
          monitor_ret = 0\<rparr>" 3 5304 stopped]
  by (simp add: StartSocketServer_def stopped_def)

text \<open>The sibling path: a failure of the monitor closes the listening socket.\<close>

lemma monitor_failure_closes_socket:
  assumes "getaddrinfo_ret env = 0" and "BindSucceeds k \<in> set (candidates env)"
    and "listen_ret env \<noteq> - 1" and "monitor_ret env = - 1"
  shows "fst (StartSocketServer env port g) = - 1
         \<and> accept_sock (snd (StartSocketServer env port g))
             \<notin> descriptors (snd (StartSocketServer env port g))"
proof -
  let ?g1 = "g\<lparr>g_threadpool_size := 0, accept_sock := - 1, addrinfos_live := True\<rparr>"
  obtain b g2 where bl: "bind_loop (candidates env) ?g1 = (b, g2)"
    by (cases "bind_loop (candidates env) ?g1")
  from bind_loop_bound [OF assms(2), of ?g1] bl
  have "b" by simp
  with assms(1,3,4) bl show ?thesis
    by (simp add: StartSocketServer_def Let_def)
qed

text \<open>When no address can be bound, the list of \<open>getaddrinfo\<close> is not freed either.\<close>

lemma bind_loop_addrinfos:
  "addrinfos_live (snd (bind_loop cs g)) = addrinfos_live g"
  by (induction cs g rule: bind_loop.induct) auto

lemma bind_failure_keeps_addrinfos:
  assumes "getaddrinfo_ret env = 0" and "\<not> fst (bind_loop (candidates env)
             (g\<lparr>g_threadpool_size := 0, accept_sock := - 1, addrinfos_live := True\<rparr>))"
  shows "fst (StartSocketServer env port g) = - 1
         \<and> addrinfos_live (snd (StartSocketServer env port g))"
proof -
  let ?g1 = "g\<lparr>g_threadpool_size := 0, accept_sock := - 1, addrinfos_live := True\<rparr>"
  obtain b g2 where bl: "bind_loop (candidates env) ?g1 = (b, g2)"
    by (cases "bind_loop (candidates env) ?g1")
  from bind_loop_addrinfos [of "candidates env" ?g1] bl have "addrinfos_live g2" by simp
  with assms bl show ?thesis
    by (simp add: StartSocketServer_def Let_def)
qed

section \<open>The sizing step of the receive pipeline\<close>

text \<open>The step never makes the buffer shorter, and makes it hold the body.\<close>

lemma ensure_capacity_grows:
  "ensure_capacity moves pContext n s = Inr s' \<Longrightarrow> contexts s pContext = Some c \<Longrightarrow>
   \<exists>c'. contexts s' pContext = Some c' \<and> RecvBufferLen c \<le> RecvBufferLen c'
        \<and> n \<le> RecvBufferLen c'"
  by (auto simp: ensure_capacity_def realloc_bytes_def malloc_bytes_def
      split: option.splits if_splits sum.splits)

text \<open>
  C3. \<open>ProcessRecv\<close> takes \<open>buf\<close> from \<open>RecvBuffer\<close> before the sizing step, reads the
  body to \<open>buf\<close> and stores \<open>buf\<close> in \<open>Message\<close>. When the body is longer than the
  buffer and \<open>realloc\<close> moves the block, the address that \<open>buf\<close> holds is released:
  after the step it is no allocation, and \<open>RecvBuffer\<close> is another address.
\<close>

theorem moved_buffer_leaves_stale_pointer:
  assumes "contexts s pContext = Some c" and "blocks s (RecvBuffer c) = Some mem"
    and "RecvBuffer c \<noteq> NULL" and "RecvBuffer c \<noteq> fresh s" and "RecvBufferLen c < n"
  shows "\<exists>s' c'. ensure_capacity True pContext n s = Inr s'
           \<and> contexts s' pContext = Some c'
           \<and> RecvBuffer c' \<noteq> RecvBuffer c
           \<and> blocks s' (RecvBuffer c) = None
           \<and> blocks s' (RecvBuffer c') \<noteq> None"
  using assms
  by (auto simp: ensure_capacity_def realloc_bytes_def)

theorem moved_buffer_leaves_stale_pointer_witness:
  "\<exists>s' c'. ensure_capacity True 100 9 (snd (connected (half_window 8))) = Inr s'
      \<and> contexts s' 100 = Some c' \<and> RecvBuffer c' \<noteq> 101 \<and> blocks s' 101 = None
      \<and> blocks s' (RecvBuffer c') \<noteq> None"
proof -
  let ?s = "snd (connected (half_window 8))"
  let ?c = "\<lparr>fd = 7, RecvBuffer = 101, RecvBufferLen = 8, avg_RecvBufferLen = 8, Message = 0,
             ReceivedMessageBodyBytes = 0, RemainingBytesToSend = 0,
             WaitingHandshakeMessage = False\<rparr>"
  have c: "contexts ?s 100 = Some ?c" by (simp add: connected_8)
  have b: "blocks ?s (RecvBuffer ?c) = Some (replicate 8 0)" by (simp add: connected_8)
  have n: "RecvBuffer ?c \<noteq> NULL" by (simp add: NULL_def)
  have f: "RecvBuffer ?c \<noteq> fresh ?s" by (simp add: connected_8)
  have l: "RecvBufferLen ?c < 9" by simp
  from moved_buffer_leaves_stale_pointer [OF c b n f l] obtain s' c' where
    "ensure_capacity True 100 9 ?s = Inr s'" "contexts s' 100 = Some c'"
    "RecvBuffer c' \<noteq> RecvBuffer ?c" "blocks s' (RecvBuffer ?c) = None"
    "blocks s' (RecvBuffer c') \<noteq> None"
    by blast
  then show ?thesis by auto
qed

section \<open>Resetting a context\<close>

lemma free_bytes_live:
  "p = NULL \<or> blocks s p \<noteq> None \<Longrightarrow>
   free_bytes p s = Inr (if p = NULL then s else s\<lparr>blocks := (blocks s)(p := None)\<rparr>)"
  by (auto simp: free_bytes_def)

lemma free_bytes_contexts:
  "free_bytes a s = Inr s' \<Longrightarrow> contexts s' = contexts s"
  by (auto simp: free_bytes_def split: option.splits if_splits)

lemma free_bytes_frame:
  "free_bytes a s = Inr s' \<Longrightarrow>
   psco_map s' = psco_map s \<and> open_fds s' = open_fds s \<and> monitor_log s' = monitor_log s
   \<and> outgoing s' = outgoing s"
  by (auto simp: free_bytes_def split: option.splits if_splits)

lemma malloc_bytes_frame:
  "psco_map (snd (malloc_bytes n s)) = psco_map s
   \<and> open_fds (snd (malloc_bytes n s)) = open_fds s
   \<and> monitor_log (snd (malloc_bytes n s)) = monitor_log s
   \<and> outgoing (snd (malloc_bytes n s)) = outgoing s"
  by (simp add: malloc_bytes_def)

text \<open>The cast of a value in range; weights of a sliding window keep the sum in range.\<close>

lemma cast_uint32_in_range:
  "0 \<le> x \<Longrightarrow> x < 2 ^ 32 \<Longrightarrow> cast_uint32 x = Inr (word_of_int \<lfloor>x\<rfloor>)"
  by (simp add: cast_uint32_def)

lemma real_of_unat_bound: "(of_nat (unat (w :: u32)) :: real) \<le> 4294967295"
proof -
  have "unat w < 2 ^ LENGTH(32)" by (rule unsigned_less)
  then have "unat w \<le> 4294967295" by simp
  then have "(of_nat (unat w) :: real) \<le> of_nat 4294967295" by (simp only: of_nat_le_iff)
  then show ?thesis by simp
qed

lemma weighted_sum_in_range:
  fixes a b :: real
  assumes "0 \<le> a" and "0 \<le> b" and "a + b \<le> 1"
  shows "0 \<le> of_nat (unat (avg :: u32)) * a + of_nat (unat (n :: u32)) * b"
    and "of_nat (unat avg) * a + of_nat (unat n) * b < 2 ^ 32"
proof -
  show "0 \<le> of_nat (unat avg) * a + of_nat (unat n) * b"
    using assms by (intro add_nonneg_nonneg mult_nonneg_nonneg of_nat_0_le_iff)
  have "of_nat (unat avg) * a \<le> 4294967295 * a"
    using real_of_unat_bound [of avg] assms(1) by (rule mult_right_mono)
  moreover have "of_nat (unat n) * b \<le> 4294967295 * b"
    using real_of_unat_bound [of n] assms(2) by (rule mult_right_mono)
  ultimately have "of_nat (unat avg) * a + of_nat (unat n) * b \<le> 4294967295 * (a + b)"
    by (simp add: distrib_left)
  also have "\<dots> \<le> 4294967295 * 1"
    using assms(3) by (intro mult_left_mono) simp_all
  finally show "of_nat (unat avg) * a + of_nat (unat n) * b < 2 ^ 32" by simp
qed

text \<open>The lengths after the reset are those of \<open>reset_fields\<close>.\<close>

lemma ResetContextObjects_fields:
  assumes "ResetContextObjects cfg pContext s = Inr s'" and "contexts s pContext = Some c"
  shows "\<exists>c0 buf. reset_fields cfg c = Inr c0
           \<and> contexts s' pContext = Some (c0\<lparr>RecvBuffer := buf\<rparr>)"
proof -
  from assms obtain s1 where s1: "free_bytes (Message c) s = Inr s1"
    by (auto simp: ResetContextObjects_def split: sum.splits)
  from assms s1 obtain v where
    v: "slide_avg cfg (avg_RecvBufferLen c) (ReceivedMessageBodyBytes c) = Inr v"
    by (auto simp: ResetContextObjects_def split: sum.splits)
  let ?avg = "max v (RecvBufferSize cfg)"
  show ?thesis
  proof (cases "below_ratio cfg ?avg (RecvBufferLen c)")
    case True
    with assms s1 v obtain s2 where "free_bytes (RecvBuffer c) s1 = Inr s2"
      by (auto simp: ResetContextObjects_def Let_def split: sum.splits)
    with assms s1 v True
    have "contexts s' pContext =
            Some ((c\<lparr>avg_RecvBufferLen := ?avg, RecvBufferLen := ?avg\<rparr>)
                    \<lparr>RecvBuffer := fresh s2\<rparr>)"
      by (auto simp: ResetContextObjects_def malloc_bytes_def Let_def)
    moreover have "reset_fields cfg c = Inr (c\<lparr>avg_RecvBufferLen := ?avg, RecvBufferLen := ?avg\<rparr>)"
      using v True by (simp add: reset_fields_def Let_def)
    ultimately show ?thesis by blast
  next
    case False
    with assms s1 v
    have "contexts s' pContext = Some ((c\<lparr>avg_RecvBufferLen := ?avg\<rparr>)\<lparr>RecvBuffer := RecvBuffer c\<rparr>)"
      by (auto simp: ResetContextObjects_def Let_def)
    moreover have "reset_fields cfg c = Inr (c\<lparr>avg_RecvBufferLen := ?avg\<rparr>)"
      using v False by (simp add: reset_fields_def Let_def)
    ultimately show ?thesis by blast
  qed
qed

lemma ResetContextObjects_frame:
  assumes "ResetContextObjects cfg pContext s = Inr s'"
  shows "psco_map s' = psco_map s \<and> open_fds s' = open_fds s
         \<and> monitor_log s' = monitor_log s \<and> outgoing s' = outgoing s"
proof -
  from assms obtain c where c: "contexts s pContext = Some c"
    by (auto simp: ResetContextObjects_def split: option.splits)
  with assms obtain s1 where s1: "free_bytes (Message c) s = Inr s1"
    by (auto simp: ResetContextObjects_def split: sum.splits)
  note f1 = free_bytes_frame [OF s1]
  from assms c s1 obtain v where
    v: "slide_avg cfg (avg_RecvBufferLen c) (ReceivedMessageBodyBytes c) = Inr v"
    by (auto simp: ResetContextObjects_def split: sum.splits)
  let ?avg = "max v (RecvBufferSize cfg)"
  show ?thesis
  proof (cases "below_ratio cfg ?avg (RecvBufferLen c)")
    case True
    with assms c s1 v obtain s2 where s2: "free_bytes (RecvBuffer c) s1 = Inr s2"
      by (simp add: ResetContextObjects_def Let_def split: sum.splits)
    note f2 = free_bytes_frame [OF s2]
    from assms c s1 v s2 True
    have "s' = (snd (malloc_bytes (unat ?avg) s2))
                 \<lparr>contexts := (contexts (snd (malloc_bytes (unat ?avg) s2)))
                    (pContext \<mapsto> c\<lparr>avg_RecvBufferLen := ?avg, RecvBufferLen := ?avg,
                                    RecvBuffer := fst (malloc_bytes (unat ?avg) s2)\<rparr>)\<rparr>"
      by (simp add: ResetContextObjects_def Let_def split_beta)
    then have "psco_map s' = psco_map (snd (malloc_bytes (unat ?avg) s2))
          \<and> open_fds s' = open_fds (snd (malloc_bytes (unat ?avg) s2))
          \<and> monitor_log s' = monitor_log (snd (malloc_bytes (unat ?avg) s2))
          \<and> outgoing s' = outgoing (snd (malloc_bytes (unat ?avg) s2))"
      by simp
    with f1 f2 show ?thesis by (simp add: malloc_bytes_frame)
  next
    case False
    with assms c s1 v
    have "s' = s1\<lparr>contexts := (contexts s1)(pContext \<mapsto> c\<lparr>avg_RecvBufferLen := ?avg\<rparr>)\<rparr>"
      by (simp add: ResetContextObjects_def Let_def)
    with f1 show ?thesis by simp
  qed
qed

text \<open>Where the reset is defined, it returns.\<close>

lemma ResetContextObjects_defined:
  assumes "contexts s pContext = Some c" and "reset_defined cfg c s"
  shows "\<exists>s'. ResetContextObjects cfg pContext s = Inr s'"
proof -
  from assms(2) have m: "Message c = NULL \<or> blocks s (Message c) \<noteq> None"
    by (simp add: reset_defined_def)
  define s1 where
    "s1 = (if Message c = NULL then s else s\<lparr>blocks := (blocks s)(Message c := None)\<rparr>)"
  have s1: "free_bytes (Message c) s = Inr s1"
    unfolding s1_def using m by (rule free_bytes_live)
  from assms(2) obtain v where
    v: "slide_avg cfg (avg_RecvBufferLen c) (ReceivedMessageBodyBytes c) = Inr v"
    by (auto simp: reset_defined_def split: sum.splits)
  let ?avg = "max v (RecvBufferSize cfg)"
  show ?thesis
  proof (cases "below_ratio cfg ?avg (RecvBufferLen c)")
    case True
    with assms(2) v have
      "RecvBuffer c = NULL \<or> (RecvBuffer c \<noteq> Message c \<and> blocks s (RecvBuffer c) \<noteq> None)"
      by (simp add: reset_defined_def)
    then have "RecvBuffer c = NULL \<or> blocks s1 (RecvBuffer c) \<noteq> None"
      by (auto simp: s1_def)
    from free_bytes_live [OF this] obtain s2 where "free_bytes (RecvBuffer c) s1 = Inr s2"
      by blast
    with assms(1) s1 v True show ?thesis
      by (simp add: ResetContextObjects_def Let_def split_beta)
  next
    case False
    with assms(1) s1 v show ?thesis by (simp add: ResetContextObjects_def Let_def)
  qed
qed






lemma received_17:
  "after_ops 1 =
     Inr \<lparr>psco_map = [7 \<mapsto> 100],
          contexts = [100 \<mapsto> \<lparr>fd = 7, RecvBuffer = 101, RecvBufferLen = 17,
                               avg_RecvBufferLen = 8, Message = 101,
                               ReceivedMessageBodyBytes = 17, RemainingBytesToSend = 0,
                               WaitingHandshakeMessage = False\<rparr>],
          blocks = [101 \<mapsto> [1, 2, 3, 4, 5, 6, 7, 8, 9, 10, 11, 12, 13, 14, 15, 16, 17]],
          fresh = 102, open_fds = {7}, monitor_log = [Enter 100], outgoing = []\<rparr>"
  by (simp add: after_ops_def session_def connected_8 recv_defs NULL_def)


text \<open>
  Without a handler between the messages the second reset of a connection releases
  again what the first one released.
\<close>

lemma reset_twice_without_handler:
  "run (half_window 8) 100
     [Receive False (bytes_le32 17 @ [1, 2, 3, 4, 5, 6, 7, 8, 9, 10, 11, 12, 13, 14, 15, 16, 17])
        [Ready 4, Ready 17],
      Respond (Accepts 2),
      Receive False (bytes_le32 0) [Ready 4],
      Respond (Accepts 2)] (snd (connected (half_window 8))) = Inl InvalidFree"
  by (simp add: connected_8 recv_defs SendResponse_def ResetContextObjects_def load_bytes_def
      arith_defs half_window_simps NULL_def)
section \<open>The capacity of the receive buffer over time\<close>

lemma store_bytes_contexts:
  "store_bytes a off bs s = Inr s' \<Longrightarrow> contexts s' = contexts s"
  by (auto simp: store_bytes_def split: option.splits sum.splits if_splits)

lemma CloseClientConnection_contexts:
  "CloseClientConnection pContext l s = Inr s' \<Longrightarrow> contexts s' pContext = None"
  by (auto simp: CloseClientConnection_def FreePerSocketContextObject_def
      RemovePerSocketContextObject_def Let_def
      dest!: free_bytes_contexts split: option.splits sum.splits)

text \<open>The body loop leaves the context objects alone, or has released this one.\<close>

lemma body_loop_contexts:
  "body_loop pContext buf es incoming p bytes_left s = Inr (ok, i, e, s') \<Longrightarrow>
   (if ok then contexts s' = contexts s else contexts s' pContext = None)"
proof (induction es arbitrary: incoming p bytes_left s)
  case Nil
  then show ?case by (auto split: if_splits)
next
  case (Cons ev es)
  show ?case
  proof (cases "0 < bytes_left")
    case False
    with Cons.prems show ?thesis by auto
  next
    case True
    obtain r incoming' where rd: "sys_read ev incoming (unat bytes_left) = (r, incoming')"
      by (cases "sys_read ev incoming (unat bytes_left)")
    from Cons.prems True rd obtain s1 where
      st: "store_bytes buf (unat p) (payload r) s = Inr s1"
      by (auto split: sum.splits)
    have c1: "contexts s1 = contexts s" using st by (rule store_bytes_contexts)
    show ?thesis
    proof (cases "bytes_read r = 0 \<or> (bytes_read r = - 1 \<and> \<not> errno_is_EAGAIN r)")
      case True
      with Cons.prems \<open>0 < bytes_left\<close> rd st show ?thesis
        by (auto split: sum.splits dest: CloseClientConnection_contexts)
    next
      case False
      with Cons.prems \<open>0 < bytes_left\<close> rd st
      have "body_loop pContext buf es incoming' (p + word_of_int (bytes_read r))
              (bytes_left - word_of_int (bytes_read r)) s1 = Inr (ok, i, e, s')"
        by auto
      from Cons.IH [OF this] c1 show ?thesis by (auto split: if_splits)
    qed
  qed
qed

text \<open>
  \<open>ProcessRecv\<close> that returns \<open>true\<close> has not made the buffer shorter; when it returns
  \<open>false\<close> the context is gone.
\<close>

lemma ProcessRecv_capacity:
  assumes "ProcessRecv moves pContext incoming evs s = Inr (ok, i, e, s')"
    and "contexts s pContext = Some c"
  shows "if ok then \<exists>c'. contexts s' pContext = Some c' \<and> RecvBufferLen c \<le> RecvBufferLen c'
         else contexts s' pContext = None"
proof -
  from assms obtain cell incoming1 evs1 where
    pl: "prefix_loop evs incoming (replicate 4 0) 0 MessagePrefixLength
           = Inr (cell, incoming1, evs1)"
    by (auto simp: ProcessRecv_def split: sum.splits)
  from assms pl obtain s1 where ec: "ensure_capacity moves pContext (le32 cell) s = Inr s1"
    by (auto simp: ProcessRecv_def Let_def split: sum.splits)
  from ensure_capacity_grows [OF ec assms(2)] obtain c1 where
    c1: "contexts s1 pContext = Some c1" "RecvBufferLen c \<le> RecvBufferLen c1" by blast
  from assms pl ec obtain ok2 i2 e2 s2 where
    bl: "body_loop pContext (RecvBuffer c) evs1 incoming1 0 (le32 cell) s1
           = Inr (ok2, i2, e2, s2)"
    by (auto simp: ProcessRecv_def Let_def split: sum.splits)
  from body_loop_contexts [OF bl]
  have b: "if ok2 then contexts s2 = contexts s1 else contexts s2 pContext = None" .
  show ?thesis
  proof (cases ok2)
    case True
    with b c1 have "contexts s2 pContext = Some c1" by simp
    with assms pl ec bl True c1 show ?thesis
      by (auto simp: ProcessRecv_def Let_def)
  next
    case False
    with b have "contexts s2 pContext = None" by simp
    with assms pl ec bl False show ?thesis
      by (auto simp: ProcessRecv_def Let_def)
  qed
qed

lemma reset_fields_capacity:
  assumes "reset_fields cfg c = Inr c0" and "RecvBufferSize cfg \<le> RecvBufferLen c"
  shows "RecvBufferSize cfg \<le> RecvBufferLen c0"
  using assms by (auto simp: reset_fields_def Let_def split: sum.splits if_splits)

lemma ResetContextObjects_capacity:
  assumes "ResetContextObjects cfg pContext s = Inr s'" and "contexts s pContext = Some c"
    and "RecvBufferSize cfg \<le> RecvBufferLen c"
  shows "\<exists>c'. contexts s' pContext = Some c' \<and> RecvBufferSize cfg \<le> RecvBufferLen c'"
proof -
  from ResetContextObjects_fields [OF assms(1,2)] obtain c0 buf where
    f: "reset_fields cfg c = Inr c0" and c': "contexts s' pContext = Some (c0\<lparr>RecvBuffer := buf\<rparr>)"
    by blast
  from reset_fields_capacity [OF f assms(3)] c' show ?thesis by simp
qed

lemma sys_write_frame:
  "sys_write w d p n s = Inr (wr, s') \<Longrightarrow>
   contexts s' = contexts s \<and> blocks s' = blocks s \<and> fresh s' = fresh s
   \<and> psco_map s' = psco_map s \<and> open_fds s' = open_fds s \<and> monitor_log s' = monitor_log s"
  by (cases w) (auto split: sum.splits)

lemma apply_operation_capacity:
  assumes "apply_operation cfg pContext x s = Inr s'" and "capacity_ok cfg pContext s"
  shows "capacity_ok cfg pContext s'"
proof (cases x)
  case (Receive moves incoming evs)
  show ?thesis
  proof (cases "contexts s pContext")
    case None
    with assms Receive show ?thesis by (simp add: ProcessRecv_def)
  next
    case (Some c)
    from assms Receive obtain ok i e where
      "ProcessRecv moves pContext incoming evs s = Inr (ok, i, e, s')"
      by (auto split: sum.splits)
    from ProcessRecv_capacity [OF this Some] assms(2) Some show ?thesis
      by (auto simp: capacity_ok_def split: if_splits)
  qed
next
  case (Dispatch n)
  with assms show ?thesis
    by (auto simp: dispatch_def malloc_bytes_def capacity_ok_def split: option.splits)
next
  case (Respond wr)
  show ?thesis
  proof (cases "contexts s pContext")
    case None
    with assms Respond show ?thesis by (simp add: SendResponse_def)
  next
    case (Some c)
    let ?s1 = "s\<lparr>monitor_log := monitor_log s @ [Rearm (fd c)]\<rparr>"
    from assms Respond Some obtain k s2 where
      w: "sys_write wr (fd c) (Message c) (unat (RemainingBytesToSend c)) ?s1 = Inr (k, s2)"
      and r: "ResetContextObjects cfg pContext s2 = Inr s'"
      by (auto simp: SendResponse_def Let_def split: sum.splits)
    from sys_write_frame [OF w] have "contexts s2 pContext = Some c" using Some by simp
    from ResetContextObjects_capacity [OF r this] assms(2) Some show ?thesis
      by (auto simp: capacity_ok_def)
  qed
qed

lemma run_capacity:
  "run cfg pContext xs s = Inr s' \<Longrightarrow> capacity_ok cfg pContext s \<Longrightarrow>
   capacity_ok cfg pContext s'"
proof (induction xs arbitrary: s)
  case Nil
  then show ?case by simp
next
  case (Cons x xs)
  then show ?case by (auto split: sum.splits dest: apply_operation_capacity)
qed

lemma Allocate_capacity:
  "AllocatePerSocketContextObject cfg k s0 = (pContext, s) \<Longrightarrow>
   \<exists>c. contexts s pContext = Some c \<and> RecvBufferLen c = RecvBufferSize cfg"
  by (auto simp: AllocatePerSocketContextObject_def new_context_def malloc_bytes_def Let_def)

text \<open>
  C5, amended: a context that is allocated and then goes through any sequence of
  receives, dispatches and responses that the program survives has, while it exists, a
  receive buffer of at least \<open>RecvBufferSize\<close> bytes. Neither the growth in
  \<open>ProcessRecv\<close> nor the reset makes \<open>RecvBufferLen\<close> smaller than that. (The reset
  shrinks only when the average is under the threshold of the current length, so the
  length need not come down to the minimum.)
\<close>

theorem capacity_never_below_minimum:
  assumes "AllocatePerSocketContextObject cfg k s0 = (pContext, s)"
    and "run cfg pContext xs s = Inr s'" and "contexts s' pContext = Some c'"
  shows "RecvBufferSize cfg \<le> RecvBufferLen c'"
proof -
  from Allocate_capacity [OF assms(1)] have "capacity_ok cfg pContext s"
    by (auto simp: capacity_ok_def)
  from run_capacity [OF assms(2) this] assms(3) show ?thesis
    by (simp add: capacity_ok_def)
qed

text \<open>
  The session grows the buffer to 17 bytes and the second reset shrinks it; the length
  it ends with is 8, the minimum of the configuration.
\<close>

theorem capacity_never_below_minimum_witness:
  "\<exists>s s' c'.
      AllocatePerSocketContextObject (half_window 8) 7 (empty_state\<lparr>open_fds := {7}\<rparr>) = (100, s)
      \<and> run (half_window 8) 100 session s = Inr s'
      \<and> contexts s' 100 = Some c'
      \<and> RecvBufferLen c' = 8
      \<and> RecvBufferSize (half_window 8) \<le> RecvBufferLen c'"
proof -
  obtain s where a:
    "AllocatePerSocketContextObject (half_window 8) 7 (empty_state\<lparr>open_fds := {7}\<rparr>) = (100, s)"
    by (simp add: state_defs)
  then have s: "s = snd (AllocatePerSocketContextObject (half_window 8) 7
                           (empty_state\<lparr>open_fds := {7}\<rparr>))"
    by simp
  have "\<exists>s'. run (half_window 8) 100 session s = Inr s'
          \<and> (\<exists>c'. contexts s' 100 = Some c' \<and> RecvBufferLen c' = 8)"
    unfolding s
    by (simp add: session_def state_defs recv_defs dispatch_def SendResponse_def
        ResetContextObjects_def load_bytes_def arith_defs)
  then obtain s' c' where r: "run (half_window 8) 100 session s = Inr s'"
    and c: "contexts s' 100 = Some c'" and l: "RecvBufferLen c' = 8"
    by blast
  from capacity_never_below_minimum [OF a r c] a r c l show ?thesis by blast
qed

text \<open>
  With the window of one half and the ratio of two, a buffer that is one byte longer
  than the minimum is never replaced: the capped average is never under half of it.
\<close>

lemma half_window_slide:
  "\<exists>v. slide_avg (half_window n) avg m = Inr v"
proof -
  let ?x = "of_nat (unat avg) * (1 / 2 :: real) + of_nat (unat m) * (1 / 2)"
  have "0 \<le> ?x" and "?x < 2 ^ 32"
    by (rule weighted_sum_in_range; simp)+
  then have "cast_uint32 ?x = Inr (word_of_int \<lfloor>?x\<rfloor>)" by (rule cast_uint32_in_range)
  then show ?thesis by (simp add: slide_avg_def half_window_simps)
qed

lemma half_window_round_keeps:
  assumes "RecvBufferLen c = n + 1" and "0 < n" and "unat n + 1 < 2 ^ 32" and "m \<le> n + 1"
  shows "\<exists>c'. message_round (half_window n) c m = Inr c' \<and> RecvBufferLen c' = n + 1"
proof -
  from half_window_slide obtain v where
    v: "slide_avg (half_window n) (avg_RecvBufferLen c) m = Inr v" by blast
  let ?avg = "max v n"
  have n1: "unat (n + 1) = unat n + 1"
    using assms(3) by (simp add: unat_word_ariths)
  have "n \<le> ?avg" by simp
  then have "unat n \<le> unat ?avg" by (simp only: word_le_nat_alt)
  moreover have "0 < unat n" using assms(2) by (simp add: word_less_nat_alt)
  ultimately have "unat (n + 1) \<le> 2 * unat ?avg" using n1 by simp
  then have "(of_nat (unat (n + 1)) :: real) \<le> of_nat (2 * unat ?avg)"
    by (simp only: of_nat_le_iff)
  then have "(of_nat (unat (n + 1)) :: real) / 2 \<le> of_nat (unat ?avg)" by simp
  then have nb: "\<not> below_ratio (half_window n) ?avg (n + 1)"
    by (simp add: below_ratio_def half_window_simps not_less)
  have ng: "\<not> RecvBufferLen c < m" using assms(1,4) by simp
  have "message_round (half_window n) c m
          = Inr (c\<lparr>ReceivedMessageBodyBytes := m, avg_RecvBufferLen := ?avg\<rparr>)"
    using v nb ng assms(1)
    by (simp add: message_round_def reset_fields_def half_window_simps Let_def)
  with assms(1) show ?thesis by simp
qed

lemma half_window_rounds_keep:
  assumes "0 < n" and "unat n + 1 < 2 ^ 32"
  shows "RecvBufferLen c = n + 1 \<Longrightarrow> \<forall>m\<in>set ms. m \<le> n + 1 \<Longrightarrow>
         \<exists>c'. rounds (half_window n) c ms = Inr c' \<and> RecvBufferLen c' = n + 1"
proof (induction ms arbitrary: c)
  case Nil
  then show ?case by simp
next
  case (Cons m ms)
  from Cons.prems obtain c1 where
    c1: "message_round (half_window n) c m = Inr c1" "RecvBufferLen c1 = n + 1"
    using assms half_window_round_keeps [of c n m] by auto
  from Cons.IH [OF c1(2)] Cons.prems(2) c1(1) show ?case by simp
qed

text \<open>
  C5, as the specification states it: small messages bring the capacity to the
  configured minimum. With a minimum of 8192, a sliding window of one half and a ratio
  of two: after one message of 8193 bytes the buffer has 8193 bytes, and no sequence of
  messages shorter than 4096 bytes brings it to 8192.
\<close>

theorem capacity_convergence_counterexample:
  "(\<exists>c'. rounds (half_window 8192) (new_context (half_window 8192) 7 101) [8193, 0, 0]
            = Inr c' \<and> RecvBufferLen c' = 8193)
   \<and> \<not> (\<exists>ms c'. (\<forall>m\<in>set ms. m < 4096)
          \<and> rounds (half_window 8192) (new_context (half_window 8192) 7 101) (8193 # ms)
              = Inr c'
          \<and> RecvBufferLen c' = RecvBufferSize (half_window 8192))"
proof -
  let ?c0 = "new_context (half_window 8192) 7 101"
  have keep: "\<exists>c'. rounds (half_window 8192) ?c0 (8193 # ms) = Inr c'
                \<and> RecvBufferLen c' = 8192 + 1"
    if small: "\<forall>m\<in>set ms. m < 4096" for ms :: "u32 list"
  proof -
    have first: "\<exists>c1. message_round (half_window 8192) ?c0 8193 = Inr c1
                   \<and> RecvBufferLen c1 = 8192 + 1"
      by (simp add: message_round_def reset_fields_def new_context_def half_window_simps
          arith_defs Let_def)
    then obtain c1 where c1: "message_round (half_window 8192) ?c0 8193 = Inr c1"
      "RecvBufferLen c1 = 8192 + 1" by blast
    have le: "\<forall>m\<in>set ms. m \<le> (8192 :: u32) + 1"
    proof
      fix m assume "m \<in> set ms"
      with small have "m < 4096" by blast
      then show "m \<le> (8192 :: u32) + 1" by (simp add: word_less_nat_alt word_le_nat_alt)
    qed
    have "\<exists>c'. rounds (half_window 8192) c1 ms = Inr c' \<and> RecvBufferLen c' = 8192 + 1"
      by (rule half_window_rounds_keep [OF _ _ c1(2) le]) simp_all
    with c1(1) show ?thesis by simp
  qed
  have "\<forall>m\<in>set [0, 0 :: u32]. m < 4096" by simp
  from keep [OF this] have one: "\<exists>c'. rounds (half_window 8192) ?c0 [8193, 0, 0] = Inr c'
      \<and> RecvBufferLen c' = 8193"
    by simp
  have two: "\<not> (\<exists>ms c'. (\<forall>m\<in>set ms. m < 4096)
          \<and> rounds (half_window 8192) ?c0 (8193 # ms) = Inr c'
          \<and> RecvBufferLen c' = RecvBufferSize (half_window 8192))"
  proof
    assume "\<exists>ms c'. (\<forall>m\<in>set ms. m < 4096)
          \<and> rounds (half_window 8192) ?c0 (8193 # ms) = Inr c'
          \<and> RecvBufferLen c' = RecvBufferSize (half_window 8192)"
    then obtain ms c' where small: "\<forall>m\<in>set ms. m < 4096"
      and r: "rounds (half_window 8192) ?c0 (8193 # ms) = Inr c'"
      and conv: "RecvBufferLen c' = RecvBufferSize (half_window 8192)"
      by blast
    from keep [OF small] r have "RecvBufferLen c' = 8192 + 1" by auto
    with conv show False by (simp add: half_window_simps)
  qed
  from one two show ?thesis by (rule conjI)
qed

section \<open>The send pipeline\<close>

text \<open>
  \<open>ResetContextObjects\<close> returns exactly where \<open>reset_defined\<close> holds (with
  \<open>ResetContextObjects_defined\<close>), and it releases the block that \<open>Message\<close> points to.
\<close>

lemma ResetContextObjects_returns_defined:
  assumes "ResetContextObjects cfg pContext s = Inr s'" and "contexts s pContext = Some c"
  shows "reset_defined cfg c s"
proof -
  from assms obtain s1 where s1: "free_bytes (Message c) s = Inr s1"
    by (auto simp: ResetContextObjects_def split: sum.splits)
  then have m: "Message c = NULL \<or> blocks s (Message c) \<noteq> None"
    by (auto simp: free_bytes_def split: if_splits option.splits)
  from assms s1 obtain v where
    v: "slide_avg cfg (avg_RecvBufferLen c) (ReceivedMessageBodyBytes c) = Inr v"
    by (auto simp: ResetContextObjects_def split: sum.splits)
  show ?thesis
  proof (cases "below_ratio cfg (max v (RecvBufferSize cfg)) (RecvBufferLen c)")
    case True
    with assms s1 v obtain s2 where "free_bytes (RecvBuffer c) s1 = Inr s2"
      by (auto simp: ResetContextObjects_def Let_def split: sum.splits)
    with s1 have "RecvBuffer c = NULL
        \<or> (RecvBuffer c \<noteq> Message c \<and> blocks s (RecvBuffer c) \<noteq> None)"
      by (auto simp: free_bytes_def split: if_splits option.splits)
    with m v True show ?thesis by (simp add: reset_defined_def)
  next
    case False
    with m v show ?thesis by (simp add: reset_defined_def)
  qed
qed

lemma reset_defined_monitor_log:
  "reset_defined cfg c (s\<lparr>monitor_log := l\<rparr>) = reset_defined cfg c s"
  by (simp add: reset_defined_def cong: sum.case_cong)

lemma ResetContextObjects_releases_message:
  assumes "ResetContextObjects cfg pContext s = Inr s'" and "contexts s pContext = Some c"
    and "blocks s (fresh s) = None" and "Message c \<noteq> NULL"
  shows "blocks s' (Message c) = None"
proof -
  from assms obtain s1 where s1: "free_bytes (Message c) s = Inr s1"
    by (auto simp: ResetContextObjects_def split: sum.splits)
  with assms(3,4) have nf: "Message c \<noteq> fresh s"
    and b1: "blocks s1 (Message c) = None" and f1: "fresh s1 = fresh s"
    by (auto simp: free_bytes_def split: option.splits)
  from assms s1 obtain v where
    v: "slide_avg cfg (avg_RecvBufferLen c) (ReceivedMessageBodyBytes c) = Inr v"
    by (auto simp: ResetContextObjects_def split: sum.splits)
  show ?thesis
  proof (cases "below_ratio cfg (max v (RecvBufferSize cfg)) (RecvBufferLen c)")
    case True
    with assms s1 v obtain s2 where s2: "free_bytes (RecvBuffer c) s1 = Inr s2"
      by (auto simp: ResetContextObjects_def Let_def split: sum.splits)
    with b1 f1 have b2: "blocks s2 (Message c) = None" and f2: "fresh s2 = fresh s"
      by (auto simp: free_bytes_def split: option.splits if_splits)
    from assms(1,2) s1 v s2 True
    have "blocks s' = (blocks s2)(fresh s2 \<mapsto> replicate (unat (max v (RecvBufferSize cfg))) 0)"
      by (auto simp: ResetContextObjects_def malloc_bytes_def Let_def)
    with b2 f2 nf show ?thesis by simp
  next
    case False
    with assms(1,2) s1 v have "blocks s' = blocks s1"
      by (auto simp: ResetContextObjects_def Let_def)
    with b1 show ?thesis by simp
  qed
qed

text \<open>
  The source installs no handler for \<open>SIGPIPE\<close> and passes no flag against it: a
  \<open>write\<close> that raises the signal ends the process inside \<open>SendResponse\<close>.
\<close>

lemma written_to_closed_peer:
  "contexts s pContext = Some c \<Longrightarrow> SendResponse cfg pContext Sigpipe s = Inl KilledBySIGPIPE"
  by (simp add: SendResponse_def)

text \<open>
  C7, as the specification states it: a write error closes the connection. In the
  session, after the first message has been received, and also after a handler has
  put its response in place, \<open>SendResponse\<close> whose \<open>write\<close> returns \<open>-1\<close> returns
  normally; afterwards descriptor 7 is still registered for the context, still open,
  and the context is still allocated.
\<close>

theorem write_error_counterexample:
  "(case after_ops 1 of
      Inl f \<Rightarrow> False
    | Inr s \<Rightarrow>
        (case SendResponse (half_window 8) 100 WriteFails s of
           Inl f \<Rightarrow> False
         | Inr s' \<Rightarrow> psco_map s' 7 = Some 100 \<and> 7 \<in> open_fds s' \<and> contexts s' 100 \<noteq> None))
   \<and> (case after_ops 2 of
      Inl f \<Rightarrow> False
    | Inr s \<Rightarrow>
        (case SendResponse (half_window 8) 100 WriteFails s of
           Inl f \<Rightarrow> False
         | Inr s' \<Rightarrow> psco_map s' 7 = Some 100 \<and> 7 \<in> open_fds s' \<and> contexts s' 100 \<noteq> None))"
proof
  show "case after_ops 1 of
      Inl f \<Rightarrow> False
    | Inr s \<Rightarrow>
        (case SendResponse (half_window 8) 100 WriteFails s of
           Inl f \<Rightarrow> False
         | Inr s' \<Rightarrow> psco_map s' 7 = Some 100 \<and> 7 \<in> open_fds s' \<and> contexts s' 100 \<noteq> None)"
    using received_17
    by (simp add: SendResponse_def ResetContextObjects_def free_bytes_def
        arith_defs half_window_simps NULL_def)
  show "case after_ops 2 of
      Inl f \<Rightarrow> False
    | Inr s \<Rightarrow>
        (case SendResponse (half_window 8) 100 WriteFails s of
           Inl f \<Rightarrow> False
         | Inr s' \<Rightarrow> psco_map s' 7 = Some 100 \<and> 7 \<in> open_fds s' \<and> contexts s' 100 \<noteq> None)"
    by (simp add: after_ops_def session_def connected_8 recv_defs dispatch_def
        SendResponse_def ResetContextObjects_def malloc_bytes_def arith_defs
        half_window_simps NULL_def)
qed

text \<open>
  C7, amended: a \<open>write\<close> that returns \<open>-1\<close> is not noticed. Wherever the reset is
  defined, \<open>SendResponse\<close> returns: it has re-armed the descriptor, nothing has been
  sent, the registry and the open descriptors are as before, and the context is still
  allocated and has been reset like after a successful \<open>write\<close>, its fields those of
  \<open>reset_fields\<close> and its message buffer released.
\<close>

theorem write_error_not_detected:
  assumes "contexts s pContext = Some c" and "reset_defined cfg c s"
    and "blocks s (fresh s) = None"
  shows "\<exists>s' c0 buf. SendResponse cfg pContext WriteFails s = Inr s'
           \<and> monitor_log s' = monitor_log s @ [Rearm (fd c)]
           \<and> outgoing s' = outgoing s
           \<and> psco_map s' = psco_map s \<and> open_fds s' = open_fds s
           \<and> reset_fields cfg c = Inr c0
           \<and> contexts s' pContext = Some (c0\<lparr>RecvBuffer := buf\<rparr>)
           \<and> (Message c \<noteq> NULL \<longrightarrow> blocks s' (Message c) = None)"
proof -
  let ?s1 = "s\<lparr>monitor_log := monitor_log s @ [Rearm (fd c)]\<rparr>"
  have c1: "contexts ?s1 pContext = Some c" using assms(1) by simp
  have "reset_defined cfg c ?s1" using assms(2) by (simp only: reset_defined_monitor_log)
  from ResetContextObjects_defined [OF c1 this] obtain s' where
    r: "ResetContextObjects cfg pContext ?s1 = Inr s'" by blast
  have sr: "SendResponse cfg pContext WriteFails s = Inr s'"
    using assms(1) r by (simp add: SendResponse_def)
  from ResetContextObjects_fields [OF r c1] obtain c0 buf where
    f: "reset_fields cfg c = Inr c0" "contexts s' pContext = Some (c0\<lparr>RecvBuffer := buf\<rparr>)"
    by blast
  from ResetContextObjects_frame [OF r]
  have fr: "psco_map s' = psco_map s" "open_fds s' = open_fds s"
    "monitor_log s' = monitor_log s @ [Rearm (fd c)]" "outgoing s' = outgoing s"
    by simp_all
  have gone: "blocks s' (Message c) = None" if "Message c \<noteq> NULL"
    using r c1 _ that by (rule ResetContextObjects_releases_message) (simp add: assms(3))
  from sr fr f gone show ?thesis by blast
qed

theorem write_error_not_detected_witness:
  "\<exists>s s' c'. after_ops 1 = Inr s
      \<and> SendResponse (half_window 8) 100 WriteFails s = Inr s'
      \<and> monitor_log s' = [Enter 100, Rearm 7] \<and> outgoing s' = []
      \<and> psco_map s' 7 = Some 100 \<and> 7 \<in> open_fds s'
      \<and> contexts s' 100 = Some c'
      \<and> avg_RecvBufferLen c' = 12 \<and> RecvBufferLen c' = 17
      \<and> blocks s' 101 = None"
proof -
  let ?c = "\<lparr>fd = 7, RecvBuffer = 101, RecvBufferLen = 17, avg_RecvBufferLen = 8,
             Message = 101, ReceivedMessageBodyBytes = 17, RemainingBytesToSend = 0,
             WaitingHandshakeMessage = False\<rparr>"
  let ?s = "\<lparr>psco_map = [7 \<mapsto> 100], contexts = [100 \<mapsto> ?c],
             blocks = [101 \<mapsto> [1, 2, 3, 4, 5, 6, 7, 8, 9, 10, 11, 12, 13, 14, 15, 16, 17]],
             fresh = 102, open_fds = {7}, monitor_log = [Enter 100], outgoing = []\<rparr>"
  have c: "contexts ?s 100 = Some ?c" by simp
  have d: "reset_defined (half_window 8) ?c ?s"
    by (simp add: reset_defined_def arith_defs half_window_simps NULL_def)
  have n: "blocks ?s (fresh ?s) = None" by simp
  have f: "reset_fields (half_window 8) ?c = Inr (?c\<lparr>avg_RecvBufferLen := 12\<rparr>)"
    by (simp add: reset_fields_def arith_defs half_window_simps)
  from write_error_not_detected [OF c d n] obtain s' c0 buf where
    "SendResponse (half_window 8) 100 WriteFails ?s = Inr s'"
    "monitor_log s' = monitor_log ?s @ [Rearm (fd ?c)]" "outgoing s' = outgoing ?s"
    "psco_map s' = psco_map ?s" "open_fds s' = open_fds ?s"
    "reset_fields (half_window 8) ?c = Inr c0"
    "contexts s' 100 = Some (c0\<lparr>RecvBuffer := buf\<rparr>)"
    "Message ?c \<noteq> NULL \<longrightarrow> blocks s' (Message ?c) = None"
    by blast
  with f have "SendResponse (half_window 8) 100 WriteFails ?s = Inr s'
      \<and> monitor_log s' = [Enter 100, Rearm 7] \<and> outgoing s' = []
      \<and> psco_map s' 7 = Some 100 \<and> 7 \<in> open_fds s'
      \<and> contexts s' 100 = Some (c0\<lparr>RecvBuffer := buf\<rparr>)
      \<and> avg_RecvBufferLen (c0\<lparr>RecvBuffer := buf\<rparr>) = 12
      \<and> RecvBufferLen (c0\<lparr>RecvBuffer := buf\<rparr>) = 17
      \<and> blocks s' 101 = None"
    by (auto simp: NULL_def)
  with received_17 show ?thesis by blast
qed
section \<open>The receive pipeline\<close>

text \<open>
  Reads that deliver. When every read returns at least one byte, each loop copies the
  bytes it was to read to their place, in whatever pieces they arrive, and leaves the
  rest of the stream unread.
\<close>

lemma write_at_patch:
  "off + length bs \<le> length mem \<Longrightarrow> write_at mem off bs = Inr (patch mem off bs)"
  by (simp add: write_at_def patch_def)

lemma length_patch:
  "off + length bs \<le> length mem \<Longrightarrow> length (patch mem off bs) = length mem"
  by (simp add: patch_def)

lemma patch_patch:
  assumes "off + length a + length b \<le> length mem"
  shows "patch (patch mem off a) (off + length a) b = patch mem off (a @ b)"
proof -
  from assms have "off \<le> length mem" by simp
  then have "min (length mem) off = off" by simp
  with assms show ?thesis by (simp add: patch_def ac_simps)
qed

lemma patch_take_drop:
  assumes "off + length todo \<le> length mem" and "m \<le> length todo"
  shows "patch (patch mem off (take m todo)) (off + m) (drop m todo) = patch mem off todo"
proof -
  have l: "length (take m todo) = m" using assms(2) by simp
  have "patch (patch mem off (take m todo)) (off + length (take m todo)) (drop m todo)
          = patch mem off (take m todo @ drop m todo)"
    using assms by (intro patch_patch) simp
  then show ?thesis unfolding l by simp
qed

lemma sys_read_delivers:
  assumes "delivers e" and "todo \<noteq> []" and "0 < n" and "n \<le> length todo"
  shows "\<exists>m. 0 < m \<and> m \<le> n \<and>
           sys_read e (todo @ rest) n = (Got (take m todo), drop m todo @ rest)"
proof -
  from assms(1) obtain k where e: "e = Ready k" and k: "0 < k" by (cases e) auto
  let ?m = "min (min k n) (length (todo @ rest))"
  have m: "0 < ?m" "?m \<le> n" "?m \<le> length todo" using k assms by auto
  then have "sys_read e (todo @ rest) n = (Got (take ?m todo), drop ?m todo @ rest)"
    using e by (simp add: Let_def)
  with m show ?thesis by blast
qed

lemma unat_advance:
  assumes "unat (p :: u32) + m < 2 ^ 32"
  shows "unat (p + word_of_nat m) = unat p + m"
  using assms by (simp add: unat_word_ariths unat_of_nat)

lemma unat_consume:
  assumes "m \<le> unat (left :: u32)"
  shows "unat (left - word_of_nat m) = unat left - m"
proof -
  have "unat left < 2 ^ LENGTH(32)" by (rule unsigned_less)
  with assms have lt: "m < 2 ^ 32" by simp
  then have um: "unat (word_of_nat m :: u32) = m" by (simp add: unat_of_nat)
  then have "(word_of_nat m :: u32) \<le> left" using assms by (simp add: word_le_nat_alt)
  then have "unat (left - word_of_nat m) = unat left - unat (word_of_nat m :: u32)"
    by (rule unat_sub)
  with um show ?thesis by simp
qed

lemma prefix_loop_delivers:
  assumes "list_all delivers evs" and "length todo \<le> length evs"
    and "unat bytes_left = length todo" and "unat p + length todo \<le> length cell"
    and "length cell < 2 ^ 32"
  shows "\<exists>es'. prefix_loop evs (todo @ rest) cell p bytes_left
                 = Inr (patch cell (unat p) todo, rest, es')
              \<and> list_all delivers es' \<and> length evs \<le> length es' + length todo"
  using assms
proof (induction evs arbitrary: todo cell p bytes_left)
  case Nil
  then have "todo = []" and "bytes_left = 0" by (auto simp: unat_eq_0)
  then show ?case by (simp add: patch_def)
next
  case (Cons e es)
  show ?case
  proof (cases "todo = []")
    case True
    with Cons.prems have "bytes_left = 0" by (simp add: unat_eq_0)
    with True Cons.prems show ?thesis by (simp add: patch_def)
  next
    case False
    with Cons.prems have pos: "0 < bytes_left" by (simp add: word_greater_zero_iff unat_eq_0 [symmetric])
    from Cons.prems have "delivers e" by simp
    from sys_read_delivers [OF this False, of "unat bytes_left" rest] False Cons.prems(3)
    obtain m where m: "0 < m" "m \<le> length todo"
      and rd: "sys_read e (todo @ rest) (unat bytes_left) = (Got (take m todo), drop m todo @ rest)"
      by auto
    have wr: "write_at cell (unat p) (take m todo) = Inr (patch cell (unat p) (take m todo))"
      using m Cons.prems(4) by (intro write_at_patch) simp
    have p': "unat (p + word_of_int (int m)) = unat p + m"
      using m Cons.prems(4,5) by (simp add: unat_advance)
    have l': "unat (bytes_left - word_of_int (int m)) = length (drop m todo)"
      using m Cons.prems(3) by (simp add: unat_consume)
    have len: "length (patch cell (unat p) (take m todo)) = length cell"
      using m Cons.prems(4) by (intro length_patch) simp
    have "\<exists>es'. prefix_loop es (drop m todo @ rest) (patch cell (unat p) (take m todo))
                   (p + word_of_int (int m)) (bytes_left - word_of_int (int m))
                 = Inr (patch (patch cell (unat p) (take m todo))
                          (unat (p + word_of_int (int m))) (drop m todo), rest, es')
              \<and> list_all delivers es' \<and> length es \<le> length es' + length (drop m todo)"
      using Cons.prems m p' l' len by (intro Cons.IH) simp_all
    then obtain es' where
      r: "prefix_loop es (drop m todo @ rest) (patch cell (unat p) (take m todo))
            (p + word_of_int (int m)) (bytes_left - word_of_int (int m))
          = Inr (patch (patch cell (unat p) (take m todo)) (unat p + m) (drop m todo), rest, es')"
      and d: "list_all delivers es'" and n: "length es \<le> length es' + length (drop m todo)"
      using p' by auto
    have "patch (patch cell (unat p) (take m todo)) (unat p + m) (drop m todo)
            = patch cell (unat p) todo"
      using Cons.prems(4) m by (intro patch_take_drop) simp_all
    with r have "prefix_loop (e # es) (todo @ rest) cell p bytes_left
                   = Inr (patch cell (unat p) todo, rest, es')"
      using pos rd wr m by simp
    moreover have "length (e # es) \<le> length es' + length todo" using n m by simp
    ultimately show ?thesis using d by blast
  qed
qed


lemma store_bytes_patch:
  assumes "blocks s buf = Some mem" and "off + length bs \<le> length mem"
  shows "\<exists>s'. store_bytes buf off bs s = Inr s' \<and> blocks s' buf = Some (patch mem off bs)
            \<and> contexts s' = contexts s"
proof (cases "bs = []")
  case True
  with assms show ?thesis by (simp add: store_bytes_def patch_def)
next
  case False
  with assms show ?thesis by (simp add: store_bytes_def write_at_patch)
qed

lemma body_loop_delivers:
  assumes "list_all delivers evs" and "length todo \<le> length evs"
    and "unat bytes_left = length todo" and "blocks s buf = Some mem"
    and "unat p + length todo \<le> length mem" and "length mem < 2 ^ 32"
  shows "\<exists>es' s'. body_loop pContext buf evs (todo @ rest) p bytes_left s
                    = Inr (True, rest, es', s')
              \<and> blocks s' buf = Some (patch mem (unat p) todo)
              \<and> contexts s' = contexts s"
  using assms
proof (induction evs arbitrary: todo p bytes_left s mem)
  case Nil
  then have "todo = []" and "bytes_left = 0" by (auto simp: unat_eq_0)
  with Nil.prems show ?case by (simp add: patch_def)
next
  case (Cons e es)
  show ?case
  proof (cases "todo = []")
    case True
    with Cons.prems have "bytes_left = 0" by (simp add: unat_eq_0)
    with True Cons.prems show ?thesis by (simp add: patch_def)
  next
    case False
    with Cons.prems have pos: "0 < bytes_left"
      by (simp add: word_greater_zero_iff unat_eq_0 [symmetric])
    from Cons.prems have "delivers e" by simp
    from sys_read_delivers [OF this False, of "unat bytes_left" rest] False Cons.prems(3)
    obtain m where m: "0 < m" "m \<le> length todo"
      and rd: "sys_read e (todo @ rest) (unat bytes_left)
                 = (Got (take m todo), drop m todo @ rest)"
      by auto
    from store_bytes_patch [OF Cons.prems(4), of "unat p" "take m todo"] m Cons.prems(5)
    obtain s1 where st: "store_bytes buf (unat p) (take m todo) s = Inr s1"
      and b1: "blocks s1 buf = Some (patch mem (unat p) (take m todo))"
      and c1: "contexts s1 = contexts s"
      by auto
    have p': "unat (p + word_of_int (int m)) = unat p + m"
      using m Cons.prems(5,6) by (simp add: unat_advance)
    have l': "unat (bytes_left - word_of_int (int m)) = length (drop m todo)"
      using m Cons.prems(3) by (simp add: unat_consume)
    have len: "length (patch mem (unat p) (take m todo)) = length mem"
      using m Cons.prems(5) by (intro length_patch) simp
    have "\<exists>es' s'. body_loop pContext buf es (drop m todo @ rest)
                      (p + word_of_int (int m)) (bytes_left - word_of_int (int m)) s1
                    = Inr (True, rest, es', s')
              \<and> blocks s' buf = Some (patch (patch mem (unat p) (take m todo))
                                        (unat (p + word_of_int (int m))) (drop m todo))
              \<and> contexts s' = contexts s1"
      using Cons.prems m p' l' len b1 by (intro Cons.IH) simp_all
    then obtain es' s' where
      r: "body_loop pContext buf es (drop m todo @ rest)
            (p + word_of_int (int m)) (bytes_left - word_of_int (int m)) s1
          = Inr (True, rest, es', s')"
      and b': "blocks s' buf = Some (patch (patch mem (unat p) (take m todo))
                                      (unat p + m) (drop m todo))"
      and c': "contexts s' = contexts s1"
      using p' by auto
    have "patch (patch mem (unat p) (take m todo)) (unat p + m) (drop m todo)
            = patch mem (unat p) todo"
      using Cons.prems(5) m by (intro patch_take_drop) simp_all
    with b' have "blocks s' buf = Some (patch mem (unat p) todo)" by simp
    moreover from r have "body_loop pContext buf (e # es) (todo @ rest) p bytes_left s
                            = Inr (True, rest, es', s')"
      using pos rd st m by simp
    ultimately show ?thesis using c' c1 by auto
  qed
qed


lemma le32_nat: "le32 bs = word_of_nat (foldr (\<lambda>b n. unat b + 256 * n) bs 0)"
  by (induction bs) (simp_all add: le32_def)

lemma unat_byte_of: "unat (ucast (v :: u32) :: byte) = unat v mod 256"
  by (simp add: unsigned_ucast_eq take_bit_eq_mod)

lemma unat_shift: "unat (drop_bit k (w :: u32)) = unat w div 2 ^ k"
  unfolding unat_drop_bit_eq by (simp add: drop_bit_eq_div)

lemma bytes_sum:
  assumes "(x::nat) < 4294967296"
  shows "x mod 256 + 256 * (x div 256 mod 256 + 256 * (x div 65536 mod 256
           + 256 * (x div 16777216))) = x"
proof -
  have a: "x div 65536 = x div 256 div 256" by (simp add: div_mult2_eq [symmetric])
  have b: "x div 16777216 = x div 256 div 256 div 256" by (simp add: div_mult2_eq [symmetric])
  show ?thesis unfolding a b by (simp only: mod_mult_div_eq)
qed

lemma le32_bytes_le32: "le32 (bytes_le32 w) = w"
proof -
  have lt: "unat w < 4294967296" using unsigned_less [of w] by simp
  then have "unat w div 16777216 < 256" by (simp add: less_mult_imp_div_less)
  then have "unat w div 16777216 mod 256 = unat w div 16777216" by simp
  with bytes_sum [OF lt]
  have "foldr (\<lambda>b n. unat b + 256 * n) (bytes_le32 w) 0 = unat w"
    by (simp add: bytes_le32_def unat_byte_of unat_shift)
  then show ?thesis by (simp add: le32_nat)
qed

lemma length_bytes_le32: "length (bytes_le32 w) = 4"
  by (simp add: bytes_le32_def)

lemma prefix_read:
  assumes "list_all delivers evs" and "4 \<le> length evs"
  shows "\<exists>es'. prefix_loop evs (bytes_le32 L @ rest) (replicate 4 0) 0 MessagePrefixLength
                 = Inr (bytes_le32 L, rest, es')
              \<and> list_all delivers es' \<and> length evs \<le> length es' + 4"
proof -
  have "\<exists>es'. prefix_loop evs (bytes_le32 L @ rest) (replicate 4 0) 0 MessagePrefixLength
                 = Inr (patch (replicate 4 0) (unat (0 :: u32)) (bytes_le32 L), rest, es')
              \<and> list_all delivers es' \<and> length evs \<le> length es' + length (bytes_le32 L)"
    using assms
    by (intro prefix_loop_delivers) (simp_all add: length_bytes_le32 MessagePrefixLength_def)
  moreover have "patch (replicate 4 0) (unat (0 :: u32)) (bytes_le32 L) = bytes_le32 L"
    by (simp add: patch_def length_bytes_le32)
  ultimately show ?thesis by (simp add: length_bytes_le32)
qed

lemma length_resize: "length (resize n bs) = n"
  by (simp add: resize_def)






text \<open>
  The round trip, where it holds: the body fits the buffer, or \<open>realloc\<close> extends the
  block where it is. \<open>ProcessRecv\<close> returns \<open>true\<close>, records the body length, and
  \<open>Message\<close> is the start of the receive buffer and holds the body.
\<close>

lemma receive_roundtrip:
  assumes c: "contexts s pContext = Some c"
    and b: "blocks s (RecvBuffer c) = Some mem"
    and sz: "length mem = unat (RecvBufferLen c)"
    and nn: "RecvBuffer c \<noteq> NULL"
    and fits: "L \<le> RecvBufferLen c \<or> \<not> moves"
    and len: "length body = unat L"
    and ev: "list_all delivers evs" "4 + length body \<le> length evs"
  shows "\<exists>es' s' c'. ProcessRecv moves pContext (bytes_le32 L @ body @ rest) evs s
                       = Inr (True, rest, es', s')
           \<and> contexts s' pContext = Some c'
           \<and> ReceivedMessageBodyBytes c' = L
           \<and> Message c' = RecvBuffer c'
           \<and> pending_message pContext s' = Some body"
proof -
  from prefix_read [OF ev(1), of L "body @ rest"] ev(2) obtain es1 where
    pl: "prefix_loop evs (bytes_le32 L @ body @ rest) (replicate 4 0) 0 MessagePrefixLength
           = Inr (bytes_le32 L, body @ rest, es1)"
    and d1: "list_all delivers es1" and n1: "length body \<le> length es1"
    by auto
  have "\<exists>s1 c1 mem1. ensure_capacity moves pContext L s = Inr s1
          \<and> contexts s1 pContext = Some c1 \<and> RecvBuffer c1 = RecvBuffer c
          \<and> blocks s1 (RecvBuffer c) = Some mem1 \<and> unat L \<le> length mem1
          \<and> length mem1 < 2 ^ 32"
  proof (cases "RecvBufferLen c < L")
    case False
    then have "unat L \<le> unat (RecvBufferLen c)" by (simp add: word_le_nat_alt not_less)
    moreover have "unat (RecvBufferLen c) < 2 ^ LENGTH(32)" by (rule unsigned_less)
    ultimately show ?thesis using False c b sz by (simp add: ensure_capacity_def)
  next
    case True
    with fits have "\<not> moves" by auto
    moreover have "unat L < 2 ^ LENGTH(32)" by (rule unsigned_less)
    ultimately show ?thesis using True c b nn
      by (simp add: ensure_capacity_def realloc_bytes_def length_resize)
  qed
  then obtain s1 c1 mem1 where
    ec: "ensure_capacity moves pContext L s = Inr s1"
    and c1: "contexts s1 pContext = Some c1" and r1: "RecvBuffer c1 = RecvBuffer c"
    and b1: "blocks s1 (RecvBuffer c) = Some mem1" and l1: "unat L \<le> length mem1"
    and u1: "length mem1 < 2 ^ 32"
    by blast
  from body_loop_delivers [OF d1 n1 len [symmetric] b1, of 0 pContext rest] l1 u1 len
  obtain es2 s2 where
    bl: "body_loop pContext (RecvBuffer c) es1 (body @ rest) 0 L s1 = Inr (True, rest, es2, s2)"
    and b2: "blocks s2 (RecvBuffer c) = Some (patch mem1 0 body)"
    and c2: "contexts s2 = contexts s1"
    by auto
  let ?c' = "c1\<lparr>Message := RecvBuffer c, ReceivedMessageBodyBytes := L\<rparr>"
  let ?s' = "s2\<lparr>contexts := (contexts s2)(pContext \<mapsto> ?c')\<rparr>"
  have "ProcessRecv moves pContext (bytes_le32 L @ body @ rest) evs s
          = Inr (True, rest, es2, ?s')"
    using c pl ec bl c1 c2 by (simp add: ProcessRecv_def le32_bytes_le32 Let_def)
  moreover have "contexts ?s' pContext = Some ?c'" by simp
  moreover have "pending_message pContext ?s' = Some body"
    using b2 l1 len by (simp add: pending_message_def patch_def)
  ultimately show ?thesis using r1 by (intro exI [of _ es2] exI [of _ ?s'] exI [of _ ?c']) simp
qed

text \<open>
  C1. The round trip fails for every body that is longer than the buffer when \<open>realloc\<close>
  moves the block, as it may: the first bytes of the body are written through the
  pointer taken before \<open>realloc\<close>, into memory that has been released. For a fresh
  context these are the body sizes \<open>default + 1\<close> and \<open>10 \<times> default\<close> of the claim.
\<close>

theorem growth_reads_into_freed_buffer:
  assumes c: "contexts s pContext = Some c"
    and b: "blocks s (RecvBuffer c) = Some mem"
    and nn: "RecvBuffer c \<noteq> NULL" and nf: "RecvBuffer c \<noteq> fresh s"
    and grow: "RecvBufferLen c < L"
    and len: "length body = unat L"
    and ev: "list_all delivers evs" "5 \<le> length evs"
  shows "ProcessRecv True pContext (bytes_le32 L @ body @ rest) evs s = Inl UseAfterFree"
proof -
  from prefix_read [OF ev(1), of L "body @ rest"] ev(2) obtain es1 where
    pl: "prefix_loop evs (bytes_le32 L @ body @ rest) (replicate 4 0) 0 MessagePrefixLength
           = Inr (bytes_le32 L, body @ rest, es1)"
    and d1: "list_all delivers es1" and n1: "1 \<le> length es1"
    by auto
  from n1 obtain e es2 where es1: "es1 = e # es2" by (cases es1) auto
  with d1 have de: "delivers e" by simp
  let ?s1 = "s\<lparr>blocks := ((blocks s)(RecvBuffer c := None))(fresh s \<mapsto> resize (unat L) mem),
                 fresh := fresh s + 1,
                 contexts := (contexts s)(pContext \<mapsto>
                    c\<lparr>RecvBuffer := fresh s, RecvBufferLen := L\<rparr>)\<rparr>"
  have ec: "ensure_capacity True pContext L s = Inr ?s1"
    using c b nn grow by (simp add: ensure_capacity_def realloc_bytes_def)
  have gone: "blocks ?s1 (RecvBuffer c) = None" using nf by simp
  from grow have "unat (RecvBufferLen c) < unat L" by (simp add: word_less_nat_alt)
  then have upos: "0 < unat L" by simp
  then have "0 < L" by (simp add: word_less_nat_alt)
  from upos len have ne: "body \<noteq> []" by auto
  from sys_read_delivers [OF de ne, of "unat L" rest] \<open>0 < unat L\<close> len
  obtain m where m: "0 < m" "m \<le> length body"
    and rd: "sys_read e (body @ rest) (unat L) = (Got (take m body), drop m body @ rest)"
    by auto
  from m ne have "take m body \<noteq> []" by auto
  with gone have "store_bytes (RecvBuffer c) (unat (0 :: u32)) (take m body) ?s1 = Inl UseAfterFree"
    by (simp add: store_bytes_def)
  with rd \<open>0 < L\<close> es1
  have "body_loop pContext (RecvBuffer c) es1 (body @ rest) 0 L ?s1 = Inl UseAfterFree"
    by simp
  with c pl ec show ?thesis
    by (simp add: ProcessRecv_def le32_bytes_le32 Let_def)
qed

text \<open>
  A fresh connection with a buffer of 8 bytes receives the prefix for 9 and a body of
  9 bytes.
\<close>

theorem growth_reads_into_freed_buffer_witness:
  "ProcessRecv True 100 (bytes_le32 9 @ [1, 2, 3, 4, 5, 6, 7, 8, 9] @ [])
     [Ready 4, Ready 9, Ready 1, Ready 1, Ready 1] (snd (connected (half_window 8)))
     = Inl UseAfterFree"
proof -
  let ?s = "snd (connected (half_window 8))"
  let ?c = "\<lparr>fd = 7, RecvBuffer = 101, RecvBufferLen = 8, avg_RecvBufferLen = 8, Message = 0,
             ReceivedMessageBodyBytes = 0, RemainingBytesToSend = 0,
             WaitingHandshakeMessage = False\<rparr>"
  have c: "contexts ?s 100 = Some ?c" by (simp add: connected_8)
  have b: "blocks ?s (RecvBuffer ?c) = Some (replicate 8 0)" by (simp add: connected_8)
  have nn: "RecvBuffer ?c \<noteq> NULL" by (simp add: NULL_def)
  have nf: "RecvBuffer ?c \<noteq> fresh ?s" by (simp add: connected_8)
  have g: "RecvBufferLen ?c < 9" by simp
  have l: "length [1, 2, 3, 4, 5, 6, 7, 8, 9 :: byte] = unat (9 :: u32)" by simp
  have e: "list_all delivers [Ready 4, Ready 9, Ready 1, Ready 1, Ready 1]" by simp
  have n: "5 \<le> length [Ready 4, Ready 9, Ready 1, Ready 1, Ready 1]" by simp
  from growth_reads_into_freed_buffer [OF c b nn nf g l e n] show ?thesis .
qed

text \<open>The same input when \<open>realloc\<close> extends the block in place: the round trip holds.\<close>

lemma roundtrip_in_place:
  "case ProcessRecv False 100 (bytes_le32 9 @ [1, 2, 3, 4, 5, 6, 7, 8, 9]) [Ready 4, Ready 9]
          (snd (connected (half_window 8))) of
     Inl f \<Rightarrow> False
   | Inr (ok, i, e, s') \<Rightarrow> ok \<and> pending_message 100 s' = Some [1, 2, 3, 4, 5, 6, 7, 8, 9]"
  by (simp add: connected_8 recv_defs Let_def NULL_def)

text \<open>
  What one failed or empty read does to the two loops. In the first loop every such
  result goes into the counters: a result of \<open>0\<close> changes nothing and the loop reads
  again, and a result of \<open>-1\<close> takes the position one back and the count one up.
\<close>

lemma prefix_loop_zero:
  "0 < bytes_left \<Longrightarrow>
   prefix_loop (PeerClosed # es) incoming cell p bytes_left
     = prefix_loop es incoming cell p bytes_left"
  by (simp add: write_at_def)

lemma prefix_loop_hard_error:
  "0 < bytes_left \<Longrightarrow>
   prefix_loop (HardError # es) incoming cell p bytes_left
     = prefix_loop es incoming cell (p - 1) (bytes_left + 1)"
  by (simp add: write_at_def)

lemma prefix_loop_would_block:
  "0 < bytes_left \<Longrightarrow>
   prefix_loop (WouldBlock # es) incoming cell p bytes_left
     = prefix_loop es incoming cell (p - 1) (bytes_left + 1)"
  by (simp add: write_at_def)

text \<open>A peer that has closed keeps the first loop running for as long as it is read.\<close>

lemma prefix_loop_peer_closed_forever:
  "0 < bytes_left \<Longrightarrow>
   prefix_loop (replicate n PeerClosed) incoming cell p bytes_left = Inl NoMoreEvents"
  by (induction n) (simp_all add: write_at_def)

text \<open>
  In the second loop \<open>0\<close> and a hard error close the connection, and a failure with
  \<open>EAGAIN\<close> goes into the counters like a byte count.
\<close>

lemma body_loop_would_block:
  "0 < bytes_left \<Longrightarrow>
   body_loop pContext buf (WouldBlock # es) incoming p bytes_left s
     = body_loop pContext buf es incoming (p - 1) (bytes_left + 1) s"
  by (simp add: store_bytes_def)

lemma body_loop_closes:
  "0 < bytes_left \<Longrightarrow> e = PeerClosed \<or> e = HardError \<Longrightarrow>
   body_loop pContext buf (e # es) incoming p bytes_left s
     = (case CloseClientConnection pContext False s of
          Inl f \<Rightarrow> Inl f
        | Inr s' \<Rightarrow> Inr (False, incoming, es, s'))"
  by (auto simp: store_bytes_def)

text \<open>
  C2. Three runs against the claim. (1) The prefix \<open>2 0 0 0\<close> arrives as two bytes, a
  failure with \<open>EAGAIN\<close>, and the rest: the loop ends with the prefix \<open>2 0 0 97\<close>, having
  overwritten its second byte and taken the first byte of the body. (2) Reads that
  return \<open>0\<close> do not end the first loop. (3) A body \<open>97 98\<close> arrives as one byte, a
  failure with \<open>EAGAIN\<close>, and the rest: \<open>ProcessRecv\<close> returns \<open>true\<close> with the message
  \<open>98 99\<close>, the second byte written over the first and a byte of the next message taken.
\<close>

theorem would_block_corrupts_counters:
  "prefix_loop [Ready 2, WouldBlock, Ready 4] [2, 0, 0, 0, 97, 98] (replicate 4 0) 0
     MessagePrefixLength = Inr ([2, 0, 0, 97], [98], [])
   \<and> prefix_loop [PeerClosed, PeerClosed, PeerClosed] [] (replicate 4 0) 0 MessagePrefixLength
       = Inl NoMoreEvents
   \<and> (case ProcessRecv False 100 [2, 0, 0, 0, 97, 98, 99]
              [Ready 4, Ready 1, WouldBlock, Ready 4] (snd (connected (half_window 8))) of
         Inl f \<Rightarrow> False
       | Inr (ok, i, e, s') \<Rightarrow> ok \<and> i = [] \<and> pending_message 100 s' = Some [98, 99])"
  by (simp add: connected_8 recv_defs Let_def NULL_def)


end
